theory Spec2Isabelle
  imports Main "HOL-Library.AList" "HOL-Library.Char_ord" "HOL-Library.List_Lexorder"
    "HOL-Library.Multiset"
begin

section \<open>Directed graphs in insertion order\<close>

text \<open>
  \<^verbatim>\<open>graph.py\<close> keeps its dependency graph in a \<^verbatim>\<open>networkx.DiGraph\<close>. The library
  stores the nodes and, per node, its successors and predecessors in dictionaries, which
  iterate in insertion order. The model keeps the nodes in insertion order and the edges
  in the order of their first insertion: the successors of \<open>u\<close> in adjacency order are
  then the targets of the edges that leave \<open>u\<close>, in edge order, and the in-degree of \<open>v\<close>
  is the number of edges that enter \<open>v\<close>.
\<close>

record digraph =
  nodes :: "string list"
  edges :: "(string \<times> string) list"

definition empty_graph :: digraph where
  "empty_graph = \<lparr>nodes = [], edges = []\<rparr>"

definition add_node :: "string \<Rightarrow> digraph \<Rightarrow> digraph" where
  "add_node n g = (if n \<in> set (nodes g) then g else g\<lparr>nodes := nodes g @ [n]\<rparr>)"

definition add_edge :: "string \<Rightarrow> string \<Rightarrow> digraph \<Rightarrow> digraph" where
  "add_edge u v g =
     (let g1 = add_node u g;
          g2 = add_node v g1
      in if (u, v) \<in> set (edges g2) then g2 else g2\<lparr>edges := edges g2 @ [(u, v)]\<rparr>)"

definition neighbors :: "digraph \<Rightarrow> string \<Rightarrow> string list" where
  "neighbors g u = map snd (filter (\<lambda>e. fst e = u) (edges g))"

definition in_degree :: "digraph \<Rightarrow> string \<Rightarrow> int" where
  "in_degree g v = int (length (filter (\<lambda>e. snd e = v) (edges g)))"

section \<open>Topological sort of the library, and the linearizer\<close>

text \<open>
  From release 2.6 on \<^verbatim>\<open>networkx.topological_sort\<close> yields the nodes of
  \<^verbatim>\<open>topological_generations\<close>, generation by generation:
  \<^verbatim>\<open>
    indegree_map = {v: d for v, d in G.in_degree() if d > 0}
    zero_indegree = [v for v, d in G.in_degree() if d == 0]
    while zero_indegree:
        this_generation = zero_indegree
        zero_indegree = []
        for node in this_generation:
            if node not in G:
                raise RuntimeError("Graph changed during iteration")
            for child in G.neighbors(node):
                try:
                    indegree_map[child] -= 1
                except KeyError as err:
                    raise RuntimeError("Graph changed during iteration") from err
                if indegree_map[child] == 0:
                    zero_indegree.append(child)
                    del indegree_map[child]
        yield this_generation
    if indegree_map:
        raise nx.NetworkXUnfeasible("Graph contains a cycle or graph changed during iteration")
  \<close>
  The dictionary \<^verbatim>\<open>indegree_map\<close> is an association list, the two exceptions are
  values of \<open>error\<close>, and a generator that raises while \<^verbatim>\<open>list(...)\<close> consumes it
  makes the whole call raise.
\<close>

datatype error = NetworkXUnfeasible | RuntimeError

type_synonym indegree_map = "(string \<times> int) list"

definition visit_child ::
    "indegree_map \<times> string list \<Rightarrow> string \<Rightarrow> error + indegree_map \<times> string list" where
  "visit_child st child =
     (case st of (m, zero_indegree) \<Rightarrow>
        (case map_of m child of
           None \<Rightarrow> Inl RuntimeError
         | Some d \<Rightarrow>
             if d - 1 = 0 then Inr (AList.delete child m, zero_indegree @ [child])
             else Inr (AList.update child (d - 1) m, zero_indegree)))"

fun visit_children ::
    "indegree_map \<times> string list \<Rightarrow> string list \<Rightarrow> error + indegree_map \<times> string list" where
  "visit_children st [] = Inr st"
| "visit_children st (child # cs) =
     (case visit_child st child of
        Inl e \<Rightarrow> Inl e
      | Inr st' \<Rightarrow> visit_children st' cs)"

fun visit_generation ::
    "digraph \<Rightarrow> indegree_map \<times> string list \<Rightarrow> string list
      \<Rightarrow> error + indegree_map \<times> string list" where
  "visit_generation g st [] = Inr st"
| "visit_generation g st (node # rest) =
     (if node \<notin> set (nodes g) then Inl RuntimeError
      else (case visit_children st (neighbors g node) of
              Inl e \<Rightarrow> Inl e
            | Inr st' \<Rightarrow> visit_generation g st' rest))"

lemma length_update_present:
  "k \<in> fst ` set al \<Longrightarrow> length (AList.update k v al) = length al"
  by (induction al) auto

lemma visit_child_length:
  "visit_child (m, z) c = Inr (m', z') \<Longrightarrow> length m' + length z' \<le> length m + length z"
proof -
  assume a: "visit_child (m, z) c = Inr (m', z')"
  then obtain d where d: "map_of m c = Some d"
    by (auto simp: visit_child_def split: option.splits)
  then have mem: "c \<in> fst ` set m"
    by (metis map_of_eq_None_iff option.distinct(1))
  then obtain p where p: "p \<in> set m" "fst p = c" by auto
  have "length (AList.delete c m) < length m"
    unfolding AList.delete_eq by (rule length_filter_less [OF p(1)]) (use p(2) in \<open>auto split: prod.splits\<close>)
  moreover have "length (AList.update c (d - 1) m) = length m"
    using mem by (rule length_update_present)
  ultimately show ?thesis
    using a d by (auto simp: visit_child_def split: if_splits)
qed

lemma visit_children_length:
  "visit_children (m, z) cs = Inr (m', z') \<Longrightarrow> length m' + length z' \<le> length m + length z"
proof (induction cs arbitrary: m z)
  case Nil
  then show ?case by simp
next
  case (Cons c cs)
  then obtain m1 z1 where s: "visit_child (m, z) c = Inr (m1, z1)"
    and r: "visit_children (m1, z1) cs = Inr (m', z')"
    by (auto split: sum.splits)
  from visit_child_length [OF s] Cons.IH [OF r] show ?case by simp
qed

lemma visit_generation_length:
  "visit_generation g (m, z) ns = Inr (m', z') \<Longrightarrow> length m' + length z' \<le> length m + length z"
proof (induction ns arbitrary: m z)
  case Nil
  then show ?case by simp
next
  case (Cons n ns)
  then obtain m1 z1 where s: "visit_children (m, z) (neighbors g n) = Inr (m1, z1)"
    and r: "visit_generation g (m1, z1) ns = Inr (m', z')"
    by (auto split: sum.splits if_splits)
  from visit_children_length [OF s] Cons.IH [OF r] show ?case by simp
qed

function generations_loop ::
    "digraph \<Rightarrow> indegree_map \<Rightarrow> string list \<Rightarrow> error + string list list" where
  "generations_loop g m zero_indegree =
     (if zero_indegree \<noteq> [] then
        (case visit_generation g (m, []) zero_indegree of
           Inl e \<Rightarrow> Inl e
         | Inr (m', zero_indegree') \<Rightarrow>
             (case generations_loop g m' zero_indegree' of
                Inl e \<Rightarrow> Inl e
              | Inr gens \<Rightarrow> Inr (zero_indegree # gens)))
      else if m \<noteq> [] then Inl NetworkXUnfeasible
      else Inr [])"
  by pat_completeness auto
termination
proof (relation "measure (\<lambda>(g, m, z). 2 * length m + (if z = [] then 0 else 1))", goal_cases)
  case 1
  show ?case by simp
next
  case (2 g m z st m' z')
  from visit_generation_length [of g m "[]" z m' z'] 2 show ?case
    by (cases z') auto
qed

declare generations_loop.simps [simp del]

text \<open>
  Before release 2.6 \<^verbatim>\<open>networkx.topological_sort\<close> had a loop of its own, with the
  same two tables and the list \<^verbatim>\<open>zero_indegree\<close> used as a stack:
  \<^verbatim>\<open>
    while zero_indegree:
        node = zero_indegree.pop()
        if node not in G:
            raise RuntimeError("Graph changed during iteration")
        for _, child in G.edges(node):
            try:
                indegree_map[child] -= 1
            except KeyError as e:
                raise RuntimeError("Graph changed during iteration") from e
            if indegree_map[child] == 0:
                zero_indegree.append(child)
                del indegree_map[child]
        yield node
    if indegree_map:
        raise nx.NetworkXUnfeasible("Graph contains a cycle or graph changed during iteration")
  \<close>
  \<^verbatim>\<open>graph.py\<close> imports \<^verbatim>\<open>networkx\<close> without asking for a release, so the release is a
  parameter of the sort.
\<close>

function stack_loop :: "digraph \<Rightarrow> indegree_map \<Rightarrow> string list \<Rightarrow> error + string list" where
  "stack_loop g m zero_indegree =
     (if zero_indegree \<noteq> [] then
        (if last zero_indegree \<notin> set (nodes g) then Inl RuntimeError
         else (case visit_children (m, butlast zero_indegree)
                      (neighbors g (last zero_indegree)) of
                 Inl e \<Rightarrow> Inl e
               | Inr (m', zero_indegree') \<Rightarrow>
                   (case stack_loop g m' zero_indegree' of
                      Inl e \<Rightarrow> Inl e
                    | Inr order \<Rightarrow> Inr (last zero_indegree # order))))
      else if m \<noteq> [] then Inl NetworkXUnfeasible
      else Inr [])"
  by pat_completeness auto
termination
proof (relation "measure (\<lambda>(g, m, z). length m + length z)", goal_cases)
  case 1
  show ?case by simp
next
  case (2 g m z st m' z')
  from visit_children_length [of m "butlast z" "neighbors g (last z)" m' z'] 2 show ?case
    by (cases z rule: rev_cases) auto
qed

declare stack_loop.simps [simp del]

datatype networkx_release = Stack_loop | Generations

definition initial_indegree_map :: "digraph \<Rightarrow> indegree_map" where
  "initial_indegree_map g =
     filter (\<lambda>(v, d). d > 0) (map (\<lambda>v. (v, in_degree g v)) (nodes g))"

definition initial_zero_indegree :: "digraph \<Rightarrow> string list" where
  "initial_zero_indegree g =
     map fst (filter (\<lambda>(v, d). d = 0) (map (\<lambda>v. (v, in_degree g v)) (nodes g)))"

definition topological_generations :: "digraph \<Rightarrow> error + string list list" where
  "topological_generations g =
     generations_loop g (initial_indegree_map g) (initial_zero_indegree g)"

definition topological_sort :: "networkx_release \<Rightarrow> digraph \<Rightarrow> error + string list" where
  "topological_sort nx g =
     (case nx of
        Generations \<Rightarrow>
          (case topological_generations g of
             Inl e \<Rightarrow> Inl e
           | Inr gens \<Rightarrow> Inr (concat gens))
      | Stack_loop \<Rightarrow> stack_loop g (initial_indegree_map g) (initial_zero_indegree g))"

text \<open>
  \<^verbatim>\<open>DependencyGraph.get_topological_sort\<close> reverses the library's order and catches
  \<^verbatim>\<open>NetworkXUnfeasible\<close> only; any other exception would leave the method.
\<close>

definition get_topological_sort :: "networkx_release \<Rightarrow> digraph \<Rightarrow> error + string list" where
  "get_topological_sort nx g =
     (case topological_sort nx g of
        Inr order \<Rightarrow> Inr (rev order)
      | Inl NetworkXUnfeasible \<Rightarrow> Inr (sort (nodes g))
      | Inl e \<Rightarrow> Inl e)"

section \<open>Strings\<close>

text \<open>
  Python's \<^verbatim>\<open>str\<close> is a sequence of code points; the model has the code points
  0 to 255, one \<open>char\<close> each. \<open>endswith\<close>, \<open>split\<close> and \<open>replace\<close> are the
  \<^verbatim>\<open>str\<close> methods of these names; \<open>replace\<close> is given for a non-empty pattern,
  the only kind \<^verbatim>\<open>graph.py\<close> passes, and rewrites the non-overlapping occurrences from
  left to right. \<open>split\<close> never returns the empty list, so the first branch of its
  inner case distinction is never taken.
\<close>

definition startswith :: "string \<Rightarrow> string \<Rightarrow> bool" where
  "startswith s p = (take (length p) s = p)"

definition endswith :: "string \<Rightarrow> string \<Rightarrow> bool" where
  "endswith s p = (length p \<le> length s \<and> drop (length s - length p) s = p)"

fun split :: "char \<Rightarrow> string \<Rightarrow> string list" where
  "split sep [] = ['''']"
| "split sep (c # cs) =
     (if c = sep then [] # split sep cs
      else (case split sep cs of
              [] \<Rightarrow> [c # []]
            | w # ws \<Rightarrow> (c # w) # ws))"

function replace :: "string \<Rightarrow> string \<Rightarrow> string \<Rightarrow> string" where
  "replace old new s =
     (if old \<noteq> [] \<and> startswith s old then new @ replace old new (drop (length old) s)
      else (case s of
              [] \<Rightarrow> []
            | c # cs \<Rightarrow> c # replace old new cs))"
  by pat_completeness auto
termination
proof (relation "measure (\<lambda>(old, new, s). length s)", goal_cases)
  case 1
  show ?case by simp
next
  case (2 old new s)
  then have "s \<noteq> []" by (auto simp: startswith_def)
  with 2 show ?case by (cases old) auto
next
  case 3
  then show ?case by simp
qed

declare replace.simps [simp del]

section \<open>The two patterns of the fallback\<close>

text \<open>
  The fallback of \<^verbatim>\<open>build_graph\<close> calls
  \<^verbatim>\<open>re.findall(r'package\s+([\w\.]+);', content)\<close> and the same pattern with
  \<^verbatim>\<open>import\<close>. On a \<^verbatim>\<open>str\<close> pattern \<^verbatim>\<open>\s\<close> and \<^verbatim>\<open>\w\<close> follow the Unicode
  tables; \<open>is_space\<close> and \<open>is_word\<close> are these classes on the code points 0 to 255.

  \<open>match_here kw s\<close> matches \<^verbatim>\<open>kw\s+([\w\.]+);\<close> at the start of \<open>s\<close> and returns
  the group and the text after the match. Both repetitions are greedy, and giving back
  what they took cannot help: the character after the white space is no white space, and
  the character after the name is no name character, while \<^verbatim>\<open>;\<close> is none either.
  \<open>findall\<close> scans from left to right, resumes after each match, moves one character
  on where there is none, and returns the groups.
\<close>

definition is_space :: "char \<Rightarrow> bool" where
  "is_space c =
     (let n = (of_char c :: nat)
      in (9 \<le> n \<and> n \<le> 13) \<or> (28 \<le> n \<and> n \<le> 32) \<or> n = 133 \<or> n = 160)"

definition is_word :: "char \<Rightarrow> bool" where
  "is_word c =
     (let n = (of_char c :: nat)
      in (48 \<le> n \<and> n \<le> 57) \<or> (65 \<le> n \<and> n \<le> 90) \<or> n = 95 \<or> (97 \<le> n \<and> n \<le> 122)
         \<or> n = 170 \<or> n = 178 \<or> n = 179 \<or> n = 181 \<or> n = 185 \<or> n = 186
         \<or> (188 \<le> n \<and> n \<le> 190) \<or> (192 \<le> n \<and> n \<le> 214) \<or> (216 \<le> n \<and> n \<le> 246)
         \<or> 248 \<le> n)"

definition is_name_char :: "char \<Rightarrow> bool" where
  "is_name_char c = (is_word c \<or> c = CHR ''.'')"

definition match_here :: "string \<Rightarrow> string \<Rightarrow> (string \<times> string) option" where
  "match_here kw s =
     (if startswith s kw then
        (let r1 = drop (length kw) s;
             ws = takeWhile is_space r1;
             r2 = dropWhile is_space r1;
             nm = takeWhile is_name_char r2;
             r3 = dropWhile is_name_char r2
         in if ws \<noteq> [] \<and> nm \<noteq> [] then
              (case r3 of
                 [] \<Rightarrow> None
               | c # rest \<Rightarrow> if c = CHR '';'' then Some (nm, rest) else None)
            else None)
      else None)"

lemma match_here_shorter: "match_here kw s = Some (nm, rest) \<Longrightarrow> length rest < length s"
proof -
  assume a: "match_here kw s = Some (nm, rest)"
  define r1 where "r1 = drop (length kw) s"
  define r2 where "r2 = dropWhile is_space r1"
  define r3 where "r3 = dropWhile is_name_char r2"
  from a have "r3 = CHR '';'' # rest"
    by (auto simp: match_here_def Let_def r1_def r2_def r3_def split: if_splits list.splits)
  then have "length rest < length r3" by simp
  also have "length r3 \<le> length r2" unfolding r3_def by (rule length_dropWhile_le)
  also have "length r2 \<le> length r1" unfolding r2_def by (rule length_dropWhile_le)
  also have "length r1 \<le> length s" unfolding r1_def by simp
  finally show ?thesis .
qed

function findall :: "string \<Rightarrow> string \<Rightarrow> string list" where
  "findall kw s =
     (case match_here kw s of
        Some (nm, rest) \<Rightarrow> nm # findall kw rest
      | None \<Rightarrow>
          (case s of
             [] \<Rightarrow> []
           | c # cs \<Rightarrow> findall kw cs))"
  by pat_completeness auto
termination
  by (relation "measure (\<lambda>(kw, s). length s)") (auto dest: match_here_shorter)

declare findall.simps [simp del]

section \<open>The parser\<close>

text \<open>
  \<^verbatim>\<open>parser.py\<close> calls the third-party \<^verbatim>\<open>javalang\<close>. The runtime of a run tells
  whether the module was imported (\<open>None\<close> where it was not) and what
  \<^verbatim>\<open>javalang.parse.parse\<close> makes of a text: \<open>None\<close> where it raises, else the
  compilation unit with its package name, when it has a package, and the paths of its
  imports in order.

  The references of a file are a Python \<^verbatim>\<open>set\<close>. A set of strings iterates in an order
  fixed by the hash values of its elements, which change from one interpreter process to
  the next, so the runtime also holds this order: \<open>set_order rt xs\<close> is the order in
  which the set that received the elements \<open>xs\<close> iterates. The model carries \<open>xs\<close>.
  The third part of the runtime is the release of \<^verbatim>\<open>networkx\<close> that the run imports.
\<close>

record compilation_unit =
  cu_package :: "string option"
  cu_imports :: "string list"

record runtime =
  javalang :: "(string \<Rightarrow> compilation_unit option) option"
  set_order :: "string list \<Rightarrow> string list"
  networkx :: networkx_release

definition parse :: "runtime \<Rightarrow> string \<Rightarrow> string option \<times> string list" where
  "parse rt content =
     (case javalang rt of
        None \<Rightarrow> (None, [])
      | Some javalang_parse \<Rightarrow>
          (case javalang_parse content of
             None \<Rightarrow> (None, [])
           | Some tree \<Rightarrow>
               (Some (case cu_package tree of Some name \<Rightarrow> name | None \<Rightarrow> ''''),
                cu_imports tree)))"

section \<open>The graph builder\<close>

text \<open>
  \<^verbatim>\<open>code_files\<close>, \<^verbatim>\<open>class_to_file\<close> and \<^verbatim>\<open>file_imports\<close> are dictionaries: association
  lists in insertion order, where storing under a key that is present keeps its place
  (\<open>AList.update\<close>). \<open>parse_or_fallback\<close> is the call of the parser with the fallback that follows
  it, \<open>index_file\<close> the body of the first loop of \<^verbatim>\<open>build_graph\<close>, and
  \<open>add_import_edges\<close> the body of the second.
\<close>

record build_state =
  class_to_file :: "(string \<times> string) list"
  graph :: digraph
  file_imports :: "(string \<times> string list) list"

definition parse_or_fallback :: "runtime \<Rightarrow> string \<Rightarrow> string \<times> string list" where
  "parse_or_fallback rt content =
     (case parse rt content of
        (None, _) \<Rightarrow>
          (let matches = findall ''package'' content;
               pkg = (case matches of [] \<Rightarrow> '''' | m # _ \<Rightarrow> m);
               matches_imp = findall ''import'' content
           in (pkg, matches_imp))
      | (Some pkg, imports) \<Rightarrow> (pkg, imports))"

definition class_name :: "string \<Rightarrow> string" where
  "class_name file_path = replace ''.java'' '''' (last (split CHR ''/'' file_path))"

definition full_name :: "string \<Rightarrow> string \<Rightarrow> string" where
  "full_name pkg file_path =
     (if pkg \<noteq> [] then pkg @ ''.'' @ class_name file_path else class_name file_path)"

definition index_file :: "runtime \<Rightarrow> string \<times> string \<Rightarrow> build_state \<Rightarrow> build_state" where
  "index_file rt entry st =
     (case entry of (file_path, content) \<Rightarrow>
        if \<not> endswith file_path ''.java'' then st
        else (case parse_or_fallback rt content of (pkg, imports) \<Rightarrow>
                \<lparr>class_to_file = AList.update (full_name pkg file_path) file_path (class_to_file st),
                 graph = add_node file_path (graph st),
                 file_imports = AList.update file_path imports (file_imports st)\<rparr>))"

definition add_import_edges ::
    "runtime \<Rightarrow> (string \<times> string) list \<Rightarrow> string \<times> string list \<Rightarrow> digraph \<Rightarrow> digraph" where
  "add_import_edges rt c2f entry g =
     (case entry of (file_path, imports) \<Rightarrow>
        fold (\<lambda>imp g'. case map_of c2f imp of
                          None \<Rightarrow> g'
                        | Some target_file \<Rightarrow> add_edge file_path target_file g')
             (set_order rt imports) g)"

definition index_pass :: "runtime \<Rightarrow> (string \<times> string) list \<Rightarrow> build_state" where
  "index_pass rt code_files =
     fold (index_file rt) code_files
       \<lparr>class_to_file = [], graph = empty_graph, file_imports = []\<rparr>"

definition build_graph :: "runtime \<Rightarrow> (string \<times> string) list \<Rightarrow> digraph" where
  "build_graph rt code_files =
     (let st = index_pass rt code_files
      in fold (add_import_edges rt (class_to_file st)) (file_imports st) (graph st))"

section \<open>Notions of the specification\<close>

text \<open>
  The paths of the input mapping that \<^verbatim>\<open>build_graph\<close> looks at, in the order of the
  mapping; the key under which the first loop stores a file; and what it means for a
  path to come before another in a sequence.
\<close>

definition java_paths :: "(string \<times> string) list \<Rightarrow> string list" where
  "java_paths code_files = filter (\<lambda>p. endswith p ''.java'') (map fst code_files)"

definition symbol_key :: "runtime \<Rightarrow> string \<times> string \<Rightarrow> string" where
  "symbol_key rt entry =
     (case entry of (file_path, content) \<Rightarrow> full_name (fst (parse_or_fallback rt content)) file_path)"

definition appears_before :: "string list \<Rightarrow> string \<Rightarrow> string \<Rightarrow> bool" where
  "appears_before out b a = (\<exists>xs ys zs. out = xs @ b # ys @ a # zs)"

text \<open>
  The type name in the words of the specification: the base name of the path without
  its extension \<^verbatim>\<open>.java\<close>.
\<close>

definition base_name_without_extension :: "string \<Rightarrow> string" where
  "base_name_without_extension file_path =
     (let base = last (split CHR ''/'' file_path)
      in take (length base - length ''.java'') base)"

text \<open>
  An occurrence of \<^verbatim>\<open>kw <dotted-name>;\<close> in a text: after the prefix \<open>pre\<close> the text goes
  on with the keyword, at least one white-space character, the name \<open>nm\<close>, a non-empty
  run of word characters and dots, and a semicolon. \<open>keyword_ok\<close> holds what the proofs
  use of the two keywords: the first letter does not come back, and there is neither
  white space nor a semicolon where it matters.
\<close>

definition occurrence :: "string \<Rightarrow> string \<Rightarrow> string \<Rightarrow> string \<Rightarrow> bool" where
  "occurrence kw pre nm s =
     (\<exists>ws post. s = pre @ kw @ ws @ nm @ CHR '';'' # post
        \<and> ws \<noteq> [] \<and> (\<forall>c \<in> set ws. is_space c)
        \<and> nm \<noteq> [] \<and> (\<forall>c \<in> set nm. is_name_char c))"

definition keyword_ok :: "string \<Rightarrow> bool" where
  "keyword_ok kw =
     (kw \<noteq> [] \<and> hd kw \<notin> set (tl kw) \<and> \<not> is_space (hd kw) \<and> hd kw \<noteq> CHR '';''
      \<and> CHR '';'' \<notin> set kw)"

text \<open>
  A graph is well formed when no node and no edge is stored twice and every edge joins
  two nodes. \<open>remaining g dn v\<close> counts the edges into \<open>v\<close> whose source is not among
  the nodes \<open>dn\<close> that the sort has visited; the dictionary of the sort holds this count
  for the nodes where it is positive (\<open>cnt\<close>). \<open>new_zero\<close> lists the nodes whose count
  falls to zero while a generation is visited, and \<open>topo g dn vs\<close> says that every node
  of \<open>vs\<close> comes after the sources of all its incoming edges, \<open>dn\<close> being before \<open>vs\<close>.
\<close>

definition wf_graph :: "digraph \<Rightarrow> bool" where
  "wf_graph g =
     (distinct (nodes g) \<and> distinct (edges g)
      \<and> (\<forall>e \<in> set (edges g). fst e \<in> set (nodes g) \<and> snd e \<in> set (nodes g)))"

definition remaining :: "digraph \<Rightarrow> string list \<Rightarrow> string \<Rightarrow> nat" where
  "remaining g dn v = length (filter (\<lambda>e. snd e = v \<and> fst e \<notin> set dn) (edges g))"

definition cnt :: "nat \<Rightarrow> int option" where
  "cnt n = (if n = 0 then None else Some (int n))"

fun new_zero :: "digraph \<Rightarrow> string list \<Rightarrow> string list \<Rightarrow> string list" where
  "new_zero g dn [] = []"
| "new_zero g dn (n # ns) =
     filter (\<lambda>c. remaining g dn c = 1) (neighbors g n) @ new_zero g (dn @ [n]) ns"

fun topo :: "digraph \<Rightarrow> string list \<Rightarrow> string list \<Rightarrow> bool" where
  "topo g dn [] = True"
| "topo g dn (v # vs) =
     ((\<forall>u. (u, v) \<in> set (edges g) \<longrightarrow> u \<in> set dn) \<and> topo g (dn @ [v]) vs)"

definition kahn_inv :: "digraph \<Rightarrow> string list \<Rightarrow> string list \<Rightarrow> indegree_map \<Rightarrow> bool" where
  "kahn_inv g dn z m =
     ((\<forall>v. map_of m v = cnt (remaining g dn v)) \<and> distinct (dn @ z)
      \<and> set dn \<union> set z = {v \<in> set (nodes g). remaining g dn v = 0})"

definition resolve_step :: "(string \<times> string) list \<Rightarrow> string \<Rightarrow> string \<Rightarrow> digraph \<Rightarrow> digraph" where
  "resolve_step c2f p imp g =
     (case map_of c2f imp of None \<Rightarrow> g | Some target_file \<Rightarrow> add_edge p target_file g)"

section \<open>The sort visits every node once, after its predecessors\<close>

lemma wf_graph_edgeD1: "wf_graph g \<Longrightarrow> (u, v) \<in> set (edges g) \<Longrightarrow> u \<in> set (nodes g)"
  unfolding wf_graph_def by (metis fst_conv)

lemma wf_graph_edgeD2: "wf_graph g \<Longrightarrow> (u, v) \<in> set (edges g) \<Longrightarrow> v \<in> set (nodes g)"
  unfolding wf_graph_def by (metis snd_conv)

lemma visit_children_spec:
  assumes "\<forall>v. map_of m v = cnt (r v)" "\<forall>c \<in> set cs. 1 \<le> r c" "distinct cs"
  shows "\<exists>m'. visit_children (m, z) cs = Inr (m', z @ filter (\<lambda>c. r c = 1) cs)
               \<and> (\<forall>v. map_of m' v = cnt (r v - (if v \<in> set cs then 1 else 0)))"
  using assms
proof (induction cs arbitrary: m z r)
  case Nil
  then show ?case by simp
next
  case (Cons c cs)
  define r1 where "r1 = r(c := r c - 1)"
  from Cons.prems have rc: "1 \<le> r c" and notin: "c \<notin> set cs" and dcs: "distinct cs" by auto
  from Cons.prems(1) rc have look: "map_of m c = Some (int (r c))"
    by (simp add: cnt_def)
  define m1 where "m1 = (if r c = 1 then AList.delete c m else AList.update c (int (r c) - 1) m)"
  define z1 where "z1 = (if r c = 1 then z @ [c] else z)"
  have step: "visit_child (m, z) c = Inr (m1, z1)"
    using look rc by (auto simp: visit_child_def m1_def z1_def)
  have inv1: "\<forall>v. map_of m1 v = cnt (r1 v)"
    using Cons.prems(1) rc
    by (auto simp: m1_def r1_def cnt_def delete_conv' update_conv' of_nat_diff)
  have pos1: "\<forall>c' \<in> set cs. 1 \<le> r1 c'"
    using Cons.prems(2) notin by (auto simp: r1_def)
  from Cons.IH [OF inv1 pos1 dcs, of z1] obtain m' where
    res: "visit_children (m1, z1) cs = Inr (m', z1 @ filter (\<lambda>c. r1 c = 1) cs)"
    and inv': "\<forall>v. map_of m' v = cnt (r1 v - (if v \<in> set cs then 1 else 0))"
    by blast
  have same: "filter (\<lambda>c. r1 c = 1) cs = filter (\<lambda>c. r c = 1) cs"
    using notin by (intro filter_cong) (auto simp: r1_def)
  have "visit_children (m, z) (c # cs) = Inr (m', z @ filter (\<lambda>c. r c = 1) (c # cs))"
    using step res same by (simp add: z1_def)
  moreover have "\<forall>v. map_of m' v = cnt (r v - (if v \<in> set (c # cs) then 1 else 0))"
    using inv' notin by (auto simp: r1_def)
  ultimately show ?case by blast
qed

lemma length_filter_eq_distinct:
  "distinct xs \<Longrightarrow> length (filter (\<lambda>e. e = a) xs) = (if a \<in> set xs then 1 else 0)"
  by (induction xs) auto

lemma length_filter_split:
  "length (filter P xs) = length (filter (\<lambda>x. P x \<and> Q x) xs) + length (filter (\<lambda>x. P x \<and> \<not> Q x) xs)"
  by (induction xs) auto

lemma set_neighbors: "set (neighbors g n) = {v. (n, v) \<in> set (edges g)}"
  by (force simp: neighbors_def)

lemma distinct_neighbors: "distinct (edges g) \<Longrightarrow> distinct (neighbors g n)"
  unfolding neighbors_def
  by (rule distinct_map [THEN iffD2]) (auto simp: inj_on_def prod_eq_iff)

lemma remaining_snoc:
  assumes "distinct (edges g)" "n \<notin> set dn"
  shows "remaining g (dn @ [n]) v = remaining g dn v - (if v \<in> set (neighbors g n) then 1 else 0)"
proof -
  have "remaining g dn v
        = length (filter (\<lambda>e. (snd e = v \<and> fst e \<notin> set dn) \<and> fst e = n) (edges g))
          + length (filter (\<lambda>e. (snd e = v \<and> fst e \<notin> set dn) \<and> \<not> fst e = n) (edges g))"
    unfolding remaining_def by (rule length_filter_split)
  moreover have "filter (\<lambda>e. (snd e = v \<and> fst e \<notin> set dn) \<and> fst e = n) (edges g)
                 = filter (\<lambda>e. e = (n, v)) (edges g)"
    using assms(2) by (intro filter_cong) (auto simp: prod_eq_iff)
  moreover have "filter (\<lambda>e. (snd e = v \<and> fst e \<notin> set dn) \<and> \<not> fst e = n) (edges g)
                 = filter (\<lambda>e. snd e = v \<and> fst e \<notin> set (dn @ [n])) (edges g)"
    by (intro filter_cong) auto
  ultimately have "remaining g dn v
        = (if (n, v) \<in> set (edges g) then 1 else 0) + remaining g (dn @ [n]) v"
    using assms(1) by (simp add: remaining_def length_filter_eq_distinct)
  then show ?thesis by (simp add: set_neighbors)
qed

lemma remaining_pos_iff:
  "(1 \<le> remaining g dn v) = (\<exists>u. (u, v) \<in> set (edges g) \<and> u \<notin> set dn)"
proof -
  have "(1 \<le> remaining g dn v) = (filter (\<lambda>e. snd e = v \<and> fst e \<notin> set dn) (edges g) \<noteq> [])"
    unfolding remaining_def by (cases "filter (\<lambda>e. snd e = v \<and> fst e \<notin> set dn) (edges g)") auto
  also have "\<dots> = (\<exists>e \<in> set (edges g). snd e = v \<and> fst e \<notin> set dn)"
    by (simp add: filter_empty_conv)
  also have "\<dots> = (\<exists>u. (u, v) \<in> set (edges g) \<and> u \<notin> set dn)"
    by force
  finally show ?thesis .
qed

lemma remaining_Suc_iff:
  "(Suc 0 \<le> remaining g dn v) = (\<exists>u. (u, v) \<in> set (edges g) \<and> u \<notin> set dn)"
  using remaining_pos_iff [of g dn v] by simp

lemma remaining_posI:
  "(u, v) \<in> set (edges g) \<Longrightarrow> u \<notin> set dn \<Longrightarrow> Suc 0 \<le> remaining g dn v"
  using remaining_pos_iff [of g dn v] by auto

lemma remaining_zero_iff:
  "(remaining g dn v = 0) = (\<forall>u. (u, v) \<in> set (edges g) \<longrightarrow> u \<in> set dn)"
  using remaining_pos_iff [of g dn v] by auto

lemma visit_node_spec:
  assumes "\<forall>v. map_of m v = cnt (remaining g dn v)" "n \<notin> set dn" "distinct (edges g)"
  shows "\<exists>m'. visit_children (m, z) (neighbors g n)
                 = Inr (m', z @ filter (\<lambda>c. remaining g dn c = 1) (neighbors g n))
               \<and> (\<forall>v. map_of m' v = cnt (remaining g (dn @ [n]) v))"
proof -
  have pos: "\<forall>c \<in> set (neighbors g n). 1 \<le> remaining g dn c"
    using assms(2) by (auto simp: set_neighbors intro: remaining_posI)
  from visit_children_spec [OF assms(1) pos distinct_neighbors [OF assms(3)], of z]
  show ?thesis by (simp add: remaining_snoc [OF assms(3) assms(2)])
qed

lemma visit_generation_spec:
  assumes "\<forall>v. map_of m v = cnt (remaining g dn v)" "distinct (dn @ ns)"
    "set ns \<subseteq> set (nodes g)" "distinct (edges g)"
  shows "\<exists>m'. visit_generation g (m, z) ns = Inr (m', z @ new_zero g dn ns)
               \<and> (\<forall>v. map_of m' v = cnt (remaining g (dn @ ns) v))"
  using assms(1-3)
proof (induction ns arbitrary: m z dn)
  case Nil
  then show ?case by simp
next
  case (Cons n ns)
  from Cons.prems have n: "n \<notin> set dn" "n \<in> set (nodes g)" by auto
  from visit_node_spec [OF Cons.prems(1) n(1) assms(4), of z] obtain m1 where
    s1: "visit_children (m, z) (neighbors g n)
           = Inr (m1, z @ filter (\<lambda>c. remaining g dn c = 1) (neighbors g n))"
    and i1: "\<forall>v. map_of m1 v = cnt (remaining g (dn @ [n]) v)"
    by blast
  have d1: "distinct ((dn @ [n]) @ ns)" and sub1: "set ns \<subseteq> set (nodes g)"
    using Cons.prems by auto
  from Cons.IH [OF i1 d1 sub1, of "z @ filter (\<lambda>c. remaining g dn c = 1) (neighbors g n)"]
  obtain m' where
    s2: "visit_generation g (m1, z @ filter (\<lambda>c. remaining g dn c = 1) (neighbors g n)) ns
           = Inr (m', (z @ filter (\<lambda>c. remaining g dn c = 1) (neighbors g n))
                        @ new_zero g (dn @ [n]) ns)"
    and i2: "\<forall>v. map_of m' v = cnt (remaining g ((dn @ [n]) @ ns) v)"
    by blast
  have "visit_generation g (m, z) (n # ns) = Inr (m', z @ new_zero g dn (n # ns))"
    using s1 s2 n(2) by simp
  moreover have "\<forall>v. map_of m' v = cnt (remaining g (dn @ n # ns) v)"
    using i2 by simp
  ultimately show ?case by blast
qed

lemma length_filter_conj_le:
  "length (filter (\<lambda>x. P x \<and> Q x) xs) \<le> length (filter P xs)"
  by (induction xs) auto

lemma remaining_mono: "remaining g (dn @ xs) v \<le> remaining g dn v"
proof -
  have "remaining g (dn @ xs) v
        = length (filter (\<lambda>e. (snd e = v \<and> fst e \<notin> set dn) \<and> fst e \<notin> set xs) (edges g))"
    unfolding remaining_def by (simp add: conj_assoc)
  also have "\<dots> \<le> remaining g dn v"
    unfolding remaining_def by (rule length_filter_conj_le)
  finally show ?thesis .
qed

lemma set_new_zero:
  assumes "distinct (edges g)"
  shows "distinct (dn @ ns) \<Longrightarrow>
         set (new_zero g dn ns) = {v. 1 \<le> remaining g dn v \<and> remaining g (dn @ ns) v = 0}
         \<and> distinct (new_zero g dn ns)"
proof (induction ns arbitrary: dn)
  case Nil
  then show ?case by auto
next
  case (Cons n ns)
  from Cons.prems have n: "n \<notin> set dn" and d1: "distinct ((dn @ [n]) @ ns)" by auto
  note snoc = remaining_snoc [OF assms n]
  let ?F = "filter (\<lambda>c. remaining g dn c = 1) (neighbors g n)"
  have F: "set ?F = {v. 1 \<le> remaining g dn v \<and> remaining g (dn @ [n]) v = 0}"
  proof -
    have pos: "\<And>v. v \<in> set (neighbors g n) \<Longrightarrow> 1 \<le> remaining g dn v"
      using n by (auto simp: set_neighbors intro: remaining_posI)
    show ?thesis
    proof (rule set_eqI)
      fix v
      show "(v \<in> set ?F) = (v \<in> {v. 1 \<le> remaining g dn v \<and> remaining g (dn @ [n]) v = 0})"
        using pos [of v] snoc [of v] by (cases "v \<in> set (neighbors g n)") auto
    qed
  qed
  from Cons.IH [OF d1] have
    R: "set (new_zero g (dn @ [n]) ns)
          = {v. 1 \<le> remaining g (dn @ [n]) v \<and> remaining g (dn @ n # ns) v = 0}"
    and dR: "distinct (new_zero g (dn @ [n]) ns)" by auto
  have m1: "\<And>v. remaining g (dn @ n # ns) v \<le> remaining g (dn @ [n]) v"
    using remaining_mono [of g "dn @ [n]" ns] by simp
  have m2: "\<And>v. remaining g (dn @ [n]) v \<le> remaining g dn v"
    by (rule remaining_mono)
  have dF: "distinct ?F"
    using distinct_neighbors [OF assms, of n] by simp
  have split: "new_zero g dn (n # ns) = ?F @ new_zero g (dn @ [n]) ns"
    by simp
  have "set (new_zero g dn (n # ns))
          = {v. 1 \<le> remaining g dn v \<and> remaining g (dn @ n # ns) v = 0}"
  proof (rule set_eqI)
    fix v
    have "(v \<in> set (new_zero g dn (n # ns)))
            = ((1 \<le> remaining g dn v \<and> remaining g (dn @ [n]) v = 0)
               \<or> (1 \<le> remaining g (dn @ [n]) v \<and> remaining g (dn @ n # ns) v = 0))"
      unfolding split set_append Un_iff F R by simp
    also have "\<dots> = (1 \<le> remaining g dn v \<and> remaining g (dn @ n # ns) v = 0)"
      using m1 [of v] m2 [of v] by arith
    finally show "(v \<in> set (new_zero g dn (n # ns)))
            = (v \<in> {v. 1 \<le> remaining g dn v \<and> remaining g (dn @ n # ns) v = 0})"
      by simp
  qed
  moreover have "set ?F \<inter> set (new_zero g (dn @ [n]) ns) = {}"
    unfolding F R by auto
  then have "distinct (new_zero g dn (n # ns))"
    unfolding split distinct_append using dF dR by blast
  ultimately show ?case by blast
qed

lemma kahn_step:
  assumes wf: "wf_graph g" and inv: "kahn_inv g dn z m"
  shows "\<exists>m'. visit_generation g (m, []) z = Inr (m', new_zero g dn z)
               \<and> kahn_inv g (dn @ z) (new_zero g dn z) m'"
proof -
  from wf have de: "distinct (edges g)" by (simp add: wf_graph_def)
  from inv have i1: "\<forall>v. map_of m v = cnt (remaining g dn v)" and d: "distinct (dn @ z)"
    and cover: "set dn \<union> set z = {v \<in> set (nodes g). remaining g dn v = 0}"
    by (simp_all add: kahn_inv_def)
  from cover have sub: "set z \<subseteq> set (nodes g)" by auto
  from visit_generation_spec [OF i1 d sub de, of "[]"] obtain m' where
    res: "visit_generation g (m, []) z = Inr (m', new_zero g dn z)"
    and i2: "\<forall>v. map_of m' v = cnt (remaining g (dn @ z) v)"
    by auto
  from set_new_zero [OF de d] have
    nz: "set (new_zero g dn z) = {v. 1 \<le> remaining g dn v \<and> remaining g (dn @ z) v = 0}"
    and dnz: "distinct (new_zero g dn z)" by auto
  have disj: "set (dn @ z) \<inter> set (new_zero g dn z) = {}"
  proof -
    have "\<And>v. v \<in> set (dn @ z) \<Longrightarrow> remaining g dn v = 0"
      using cover by auto
    then show ?thesis unfolding nz by fastforce
  qed
  have d2: "distinct ((dn @ z) @ new_zero g dn z)"
    using d dnz disj by (simp only: distinct_append)
  have in_nodes: "\<And>v. 1 \<le> remaining g dn v \<Longrightarrow> v \<in> set (nodes g)"
  proof -
    fix v assume "1 \<le> remaining g dn v"
    then obtain u where "(u, v) \<in> set (edges g)" by (auto simp: remaining_Suc_iff)
    with wf show "v \<in> set (nodes g)" by (rule wf_graph_edgeD2)
  qed
  have cover2: "set (dn @ z) \<union> set (new_zero g dn z)
                  = {v \<in> set (nodes g). remaining g (dn @ z) v = 0}"
  proof (rule set_eqI)
    fix v
    have "(v \<in> set (dn @ z) \<union> set (new_zero g dn z))
            = ((v \<in> set (nodes g) \<and> remaining g dn v = 0)
               \<or> (1 \<le> remaining g dn v \<and> remaining g (dn @ z) v = 0))"
      using cover unfolding nz by auto
    also have "\<dots> = (v \<in> set (nodes g) \<and> remaining g (dn @ z) v = 0)"
      using remaining_mono [of g dn z v] in_nodes [of v] by (cases "remaining g dn v = 0") auto
    finally show "(v \<in> set (dn @ z) \<union> set (new_zero g dn z))
            = (v \<in> {v \<in> set (nodes g). remaining g (dn @ z) v = 0})" by simp
  qed
  have "kahn_inv g (dn @ z) (new_zero g dn z) m'"
    unfolding kahn_inv_def using i2 d2 cover2 by blast
  with res show ?thesis by blast
qed

lemma topo_append: "topo g dn (xs @ ys) = (topo g dn xs \<and> topo g (dn @ xs) ys)"
  by (induction xs arbitrary: dn) auto

lemma topo_ready:
  "(\<And>v. v \<in> set z \<Longrightarrow> remaining g dn v = 0) \<Longrightarrow> topo g dn z"
proof (induction z arbitrary: dn)
  case Nil
  then show ?case by simp
next
  case (Cons v z)
  have "remaining g (dn @ [v]) w = 0" if "w \<in> set z" for w
  proof -
    from that Cons.prems [of w] have "remaining g dn w = 0" by simp
    with remaining_mono [of g dn "[v]" w] show ?thesis by simp
  qed
  from Cons.IH [OF this] Cons.prems [of v] show ?case
    by (simp add: remaining_zero_iff)
qed

lemma cyclic_if_all_blocked:
  assumes "S \<noteq> {}" "\<And>v. v \<in> S \<Longrightarrow> \<exists>u \<in> S. (u, v) \<in> set es"
  shows "\<not> acyclic (set es)"
proof
  assume "acyclic (set es)"
  then have "wf (set es)" by (simp add: finite_acyclic_wf)
  from assms(1) obtain x where "x \<in> S" by auto
  from wfE_min [OF \<open>wf (set es)\<close> this] obtain z where
    "z \<in> S" "\<And>y. (y, z) \<in> set es \<Longrightarrow> y \<notin> S" by metis
  with assms(2) [of z] show False by blast
qed

lemma map_of_nonempty: "m \<noteq> [] \<Longrightarrow> \<exists>k. map_of m k \<noteq> None"
  by (cases m) auto

lemma generations_loop_correct:
  "wf_graph g \<Longrightarrow> kahn_inv g dn z m \<Longrightarrow>
         (case generations_loop g m z of
            Inr gens \<Rightarrow> set (dn @ concat gens) = set (nodes g) \<and> distinct (dn @ concat gens)
                         \<and> topo g dn (concat gens)
          | Inl e \<Rightarrow> e = NetworkXUnfeasible \<and> \<not> acyclic (set (edges g)))"
proof (induction g m z arbitrary: dn rule: generations_loop.induct)
  case (1 g m z)
  note wf = \<open>wf_graph g\<close> and inv = \<open>kahn_inv g dn z m\<close>
  show ?case
  proof (cases "z = []")
    case True
    from inv True have i1: "\<forall>v. map_of m v = cnt (remaining g dn v)" and d: "distinct dn"
      and cover: "set dn = {v \<in> set (nodes g). remaining g dn v = 0}"
      by (simp_all add: kahn_inv_def)
    have unf: "generations_loop g m z = (if m \<noteq> [] then Inl NetworkXUnfeasible else Inr [])"
      using True by (subst generations_loop.simps) simp
    show ?thesis
    proof (cases "m = []")
      case True
      with i1 have "\<And>v. remaining g dn v = 0" by (simp add: cnt_def split: if_splits)
      with cover have sd: "set dn = set (nodes g)" by simp
      from unf True have r: "generations_loop g m z = Inr []" by simp
      show ?thesis
        unfolding r sum.case concat.simps append_Nil2 topo.simps using sd d by blast
    next
      case False
      define S where "S = {v. 1 \<le> remaining g dn v}"
      from map_of_nonempty [OF False] obtain k where "map_of m k \<noteq> None" by blast
      with i1 have "remaining g dn k \<noteq> 0" by (auto simp: cnt_def split: if_splits)
      then have "k \<in> S" by (simp add: S_def)
      then have "S \<noteq> {}" by blast
      moreover have "\<exists>u \<in> S. (u, v) \<in> set (edges g)" if "v \<in> S" for v
      proof -
        from that obtain u where e: "(u, v) \<in> set (edges g)" and u: "u \<notin> set dn"
          by (auto simp: S_def remaining_Suc_iff)
        from wf e have un: "u \<in> set (nodes g)" by (rule wf_graph_edgeD1)
        have "remaining g dn u \<noteq> 0"
        proof
          assume "remaining g dn u = 0"
          with un have "u \<in> {v \<in> set (nodes g). remaining g dn v = 0}" by simp
          then have "u \<in> set dn" unfolding cover [symmetric] .
          with u show False by simp
        qed
        then have "u \<in> S" by (simp add: S_def)
        with e show ?thesis by blast
      qed
      ultimately have "\<not> acyclic (set (edges g))" by (rule cyclic_if_all_blocked)
      moreover from unf False have "generations_loop g m z = Inl NetworkXUnfeasible" by simp
      ultimately show ?thesis by simp
    qed
  next
    case False
    from kahn_step [OF wf inv] obtain m' where
      res: "visit_generation g (m, []) z = Inr (m', new_zero g dn z)"
      and inv': "kahn_inv g (dn @ z) (new_zero g dn z) m'"
      by blast
    from inv have cover: "set dn \<union> set z = {v \<in> set (nodes g). remaining g dn v = 0}"
      by (simp add: kahn_inv_def)
    have "remaining g dn v = 0" if "v \<in> set z" for v
    proof -
      from that have "v \<in> set dn \<union> set z" by simp
      then have "v \<in> {v \<in> set (nodes g). remaining g dn v = 0}" unfolding cover .
      then show ?thesis by simp
    qed
    then have tz: "topo g dn z" by (rule topo_ready)
    from "1.IH" [OF False res refl wf inv'] have
      IH: "(case generations_loop g m' (new_zero g dn z) of
              Inr gens \<Rightarrow> set ((dn @ z) @ concat gens) = set (nodes g)
                           \<and> distinct ((dn @ z) @ concat gens) \<and> topo g (dn @ z) (concat gens)
            | Inl e \<Rightarrow> e = NetworkXUnfeasible \<and> \<not> acyclic (set (edges g)))" .
    have unf: "generations_loop g m z
                 = (case generations_loop g m' (new_zero g dn z) of
                      Inl e \<Rightarrow> Inl e
                    | Inr gens \<Rightarrow> Inr (z # gens))"
      using False res by (subst generations_loop.simps) simp
    show ?thesis
    proof (cases "generations_loop g m' (new_zero g dn z)")
      case (Inl e)
      with IH show ?thesis by (simp add: unf)
    next
      case (Inr gens)
      with IH tz show ?thesis by (simp add: unf topo_append)
    qed
  qed
qed

lemma map_of_degree_table:
  "map_of (filter (\<lambda>(v, d). P d) (map (\<lambda>v. (v, f v)) xs)) v
     = (if v \<in> set xs \<and> P (f v) then Some (f v) else None)"
  by (induction xs) auto

lemma remaining_Nil: "int (remaining g [] v) = in_degree g v"
  by (simp add: remaining_def in_degree_def)

lemma zero_degree_nodes:
  "map fst (filter (\<lambda>(v, d). d = 0) (map (\<lambda>v. (v, in_degree g v)) xs))
     = filter (\<lambda>v. remaining g [] v = 0) xs"
  by (induction xs) (auto simp: remaining_Nil [symmetric])

lemma kahn_inv_initial:
  assumes wf: "wf_graph g"
  shows "kahn_inv g [] (initial_zero_indegree g) (initial_indegree_map g)"
proof -
  have z: "initial_zero_indegree g = filter (\<lambda>v. remaining g [] v = 0) (nodes g)"
    unfolding initial_zero_indegree_def by (rule zero_degree_nodes)
  have outside: "remaining g [] v = 0" if "v \<notin> set (nodes g)" for v
  proof (rule ccontr)
    assume "remaining g [] v \<noteq> 0"
    then have "Suc 0 \<le> remaining g [] v" by simp
    then obtain u where "(u, v) \<in> set (edges g)" by (auto simp: remaining_Suc_iff)
    with wf have "v \<in> set (nodes g)" by (rule wf_graph_edgeD2)
    with that show False by simp
  qed
  have m: "map_of (initial_indegree_map g) v = cnt (remaining g [] v)" for v
    using outside [of v]
    by (auto simp: initial_indegree_map_def map_of_degree_table cnt_def remaining_Nil [symmetric])
  from wf have "distinct (nodes g)" by (simp add: wf_graph_def)
  then show ?thesis unfolding kahn_inv_def z using m by auto
qed

lemma kahn_pop:
  assumes wf: "wf_graph g" and inv: "kahn_inv g dn (z @ [n]) m"
  shows "\<exists>m'. visit_children (m, z) (neighbors g n) = Inr (m', z @ new_zero g dn [n])
               \<and> kahn_inv g (dn @ [n]) (z @ new_zero g dn [n]) m'"
    and "n \<in> set (nodes g)" and "remaining g dn n = 0"
proof -
  from wf have de: "distinct (edges g)" by (simp add: wf_graph_def)
  from inv have i1: "\<forall>v. map_of m v = cnt (remaining g dn v)" and d: "distinct (dn @ z @ [n])"
    and cover: "set dn \<union> set (z @ [n]) = {v \<in> set (nodes g). remaining g dn v = 0}"
    by (simp_all add: kahn_inv_def)
  have "n \<in> set dn \<union> set (z @ [n])" by simp
  then have "n \<in> {v \<in> set (nodes g). remaining g dn v = 0}" unfolding cover .
  then show n: "n \<in> set (nodes g)" and r: "remaining g dn n = 0" by simp_all
  from d have nd: "n \<notin> set dn" and d1: "distinct (dn @ [n])" by auto
  from visit_node_spec [OF i1 nd de, of z] obtain m' where
    res: "visit_children (m, z) (neighbors g n)
            = Inr (m', z @ filter (\<lambda>c. remaining g dn c = 1) (neighbors g n))"
    and i2: "\<forall>v. map_of m' v = cnt (remaining g (dn @ [n]) v)"
    by blast
  have nz_eq: "new_zero g dn [n] = filter (\<lambda>c. remaining g dn c = 1) (neighbors g n)"
    by simp
  from set_new_zero [OF de d1] have
    nz: "set (new_zero g dn [n]) = {v. 1 \<le> remaining g dn v \<and> remaining g (dn @ [n]) v = 0}"
    and dnz: "distinct (new_zero g dn [n])" by auto
  have old_zero: "remaining g dn v = 0" if "v \<in> set dn \<union> set (z @ [n])" for v
  proof -
    from that have "v \<in> {v \<in> set (nodes g). remaining g dn v = 0}" unfolding cover .
    then show ?thesis by simp
  qed
  have disj: "set (dn @ z @ [n]) \<inter> set (new_zero g dn [n]) = {}"
  proof (rule ccontr)
    assume "set (dn @ z @ [n]) \<inter> set (new_zero g dn [n]) \<noteq> {}"
    then obtain v where v: "v \<in> set (dn @ z @ [n])" "v \<in> set (new_zero g dn [n])" by blast
    from v(1) have "remaining g dn v = 0" by (intro old_zero) simp
    moreover from v(2) have "1 \<le> remaining g dn v" unfolding nz by simp
    ultimately show False by simp
  qed
  have d2: "distinct ((dn @ [n]) @ z @ new_zero g dn [n])"
  proof -
    from d have "distinct (dn @ [n] @ z)" by auto
    moreover from disj have "set (dn @ [n] @ z) \<inter> set (new_zero g dn [n]) = {}" by auto
    ultimately have "distinct ((dn @ [n] @ z) @ new_zero g dn [n])"
      using dnz by (simp only: distinct_append)
    then show ?thesis by simp
  qed
  have in_nodes: "v \<in> set (nodes g)" if "1 \<le> remaining g dn v" for v
  proof -
    from that obtain u where "(u, v) \<in> set (edges g)" by (auto simp: remaining_Suc_iff)
    with wf show ?thesis by (rule wf_graph_edgeD2)
  qed
  have cover2: "set (dn @ [n]) \<union> set (z @ new_zero g dn [n])
                  = {v \<in> set (nodes g). remaining g (dn @ [n]) v = 0}"
  proof (rule set_eqI)
    fix v
    have "(v \<in> set (dn @ [n]) \<union> set (z @ new_zero g dn [n]))
            = (v \<in> set dn \<union> set (z @ [n]) \<or> v \<in> set (new_zero g dn [n]))"
      by auto
    also have "\<dots> = ((v \<in> set (nodes g) \<and> remaining g dn v = 0)
               \<or> (1 \<le> remaining g dn v \<and> remaining g (dn @ [n]) v = 0))"
      unfolding cover nz by simp
    also have "\<dots> = (v \<in> set (nodes g) \<and> remaining g (dn @ [n]) v = 0)"
      using remaining_mono [of g dn "[n]" v] in_nodes [of v]
      by (cases "remaining g dn v = 0") auto
    finally show "(v \<in> set (dn @ [n]) \<union> set (z @ new_zero g dn [n]))
            = (v \<in> {v \<in> set (nodes g). remaining g (dn @ [n]) v = 0})" by simp
  qed
  have "kahn_inv g (dn @ [n]) (z @ new_zero g dn [n]) m'"
    unfolding kahn_inv_def using i2 d2 cover2 by blast
  with res show "\<exists>m'. visit_children (m, z) (neighbors g n) = Inr (m', z @ new_zero g dn [n])
               \<and> kahn_inv g (dn @ [n]) (z @ new_zero g dn [n]) m'"
    unfolding nz_eq by blast
qed

lemma kahn_inv_stuck:
  assumes wf: "wf_graph g" and inv: "kahn_inv g dn [] m"
  shows "(m = [] \<longrightarrow> set dn = set (nodes g)) \<and> (m \<noteq> [] \<longrightarrow> \<not> acyclic (set (edges g)))"
proof -
  from inv have i1: "\<forall>v. map_of m v = cnt (remaining g dn v)"
    and cover: "set dn = {v \<in> set (nodes g). remaining g dn v = 0}"
    by (simp_all add: kahn_inv_def)
  have a: "set dn = set (nodes g)" if "m = []"
  proof -
    from that i1 have "\<And>v. remaining g dn v = 0" by (simp add: cnt_def split: if_splits)
    with cover show ?thesis by simp
  qed
  have b: "\<not> acyclic (set (edges g))" if "m \<noteq> []"
  proof -
    define S where "S = {v. 1 \<le> remaining g dn v}"
    from map_of_nonempty [OF that] obtain k where "map_of m k \<noteq> None" by blast
    with i1 have "remaining g dn k \<noteq> 0" by (auto simp: cnt_def split: if_splits)
    then have "k \<in> S" by (simp add: S_def)
    then have "S \<noteq> {}" by blast
    moreover have "\<exists>u \<in> S. (u, v) \<in> set (edges g)" if "v \<in> S" for v
    proof -
      from that obtain u where e: "(u, v) \<in> set (edges g)" and u: "u \<notin> set dn"
        by (auto simp: S_def remaining_Suc_iff)
      from wf e have un: "u \<in> set (nodes g)" by (rule wf_graph_edgeD1)
      have "remaining g dn u \<noteq> 0"
      proof
        assume "remaining g dn u = 0"
        with un have "u \<in> {v \<in> set (nodes g). remaining g dn v = 0}" by simp
        then have "u \<in> set dn" unfolding cover [symmetric] .
        with u show False by simp
      qed
      then have "u \<in> S" by (simp add: S_def)
      with e show ?thesis by blast
    qed
    ultimately show ?thesis by (rule cyclic_if_all_blocked)
  qed
  from a b show ?thesis by blast
qed

lemma stack_loop_correct:
  "wf_graph g \<Longrightarrow> kahn_inv g dn z m \<Longrightarrow>
         (case stack_loop g m z of
            Inr out \<Rightarrow> set (dn @ out) = set (nodes g) \<and> distinct (dn @ out) \<and> topo g dn out
          | Inl e \<Rightarrow> e = NetworkXUnfeasible \<and> \<not> acyclic (set (edges g)))"
proof (induction g m z arbitrary: dn rule: stack_loop.induct)
  case (1 g m z)
  note wf = \<open>wf_graph g\<close> and inv = \<open>kahn_inv g dn z m\<close>
  show ?case
  proof (cases "z = []")
    case True
    have unf: "stack_loop g m z = (if m \<noteq> [] then Inl NetworkXUnfeasible else Inr [])"
      using True by (subst stack_loop.simps) simp
    from inv True have d: "distinct dn" by (simp add: kahn_inv_def)
    from inv True have stuck: "(m = [] \<longrightarrow> set dn = set (nodes g))
                               \<and> (m \<noteq> [] \<longrightarrow> \<not> acyclic (set (edges g)))"
      by (intro kahn_inv_stuck [OF wf]) simp
    show ?thesis
    proof (cases "m = []")
      case True
      with stuck have sd: "set dn = set (nodes g)" by blast
      from unf True have r: "stack_loop g m z = Inr []" by simp
      show ?thesis
        unfolding r sum.case append_Nil2 topo.simps using sd d by blast
    next
      case False
      with stuck have "\<not> acyclic (set (edges g))" by blast
      moreover from unf False have "stack_loop g m z = Inl NetworkXUnfeasible" by simp
      ultimately show ?thesis by simp
    qed
  next
    case False
    then obtain z0 n where z: "z = z0 @ [n]" by (cases z rule: rev_cases) auto
    from kahn_pop [OF wf inv [unfolded z]] obtain m' where
      res: "visit_children (m, z0) (neighbors g n) = Inr (m', z0 @ new_zero g dn [n])"
      and inv': "kahn_inv g (dn @ [n]) (z0 @ new_zero g dn [n]) m'"
      and n: "n \<in> set (nodes g)" and r: "remaining g dn n = 0"
      by blast
    have l: "last z = n" "butlast z = z0" by (simp_all add: z)
    from False n have c1: "\<not> last z \<notin> set (nodes g)" by (simp add: l)
    from res have c2: "visit_children (m, butlast z) (neighbors g (last z))
                         = Inr (m', z0 @ new_zero g dn [n])" by (simp add: l)
    from "1.IH" [OF False c1 c2 refl wf inv'] have
      IH: "(case stack_loop g m' (z0 @ new_zero g dn [n]) of
              Inr out \<Rightarrow> set ((dn @ [n]) @ out) = set (nodes g)
                           \<and> distinct ((dn @ [n]) @ out) \<and> topo g (dn @ [n]) out
            | Inl e \<Rightarrow> e = NetworkXUnfeasible \<and> \<not> acyclic (set (edges g)))" .
    have "stack_loop g m z
            = (case stack_loop g m' (z0 @ new_zero g dn [n]) of
                 Inl e \<Rightarrow> Inl e
               | Inr out \<Rightarrow> Inr (last z # out))"
      using False c1 c2 by (subst stack_loop.simps) (simp del: new_zero.simps)
    then have unf: "stack_loop g m z
                 = (case stack_loop g m' (z0 @ new_zero g dn [n]) of
                      Inl e \<Rightarrow> Inl e
                    | Inr out \<Rightarrow> Inr (n # out))"
      unfolding l(1) .
    show ?thesis
    proof (cases "stack_loop g m' (z0 @ new_zero g dn [n])")
      case (Inl e)
      with IH show ?thesis by (simp add: unf)
    next
      case (Inr out)
      with IH r show ?thesis by (simp add: unf remaining_zero_iff)
    qed
  qed
qed

lemma topological_sort_correct:
  assumes wf: "wf_graph g"
  shows "(case topological_sort nx g of
            Inr out \<Rightarrow> set out = set (nodes g) \<and> distinct out \<and> topo g [] out
          | Inl e \<Rightarrow> e = NetworkXUnfeasible \<and> \<not> acyclic (set (edges g)))"
proof (cases nx)
  case Generations
  with generations_loop_correct [OF wf kahn_inv_initial [OF wf]] show ?thesis
    by (simp add: topological_sort_def topological_generations_def split: sum.splits)
next
  case Stack_loop
  with stack_loop_correct [OF wf kahn_inv_initial [OF wf]] show ?thesis
    by (simp add: topological_sort_def split: sum.splits)
qed

lemma topo_edge_split:
  assumes "topo g [] out" "(a, b) \<in> set (edges g)" "out = xs @ b # ys"
  shows "a \<in> set xs"
  using assms by (simp add: topo_append)

lemma takeWhile_stops:
  "a \<in> set xs \<Longrightarrow> length (takeWhile (\<lambda>x. x \<noteq> a) xs) < length xs"
  by (induction xs) auto

lemma topo_acyclic:
  assumes wf: "wf_graph g" and t: "topo g [] out" and s: "set out = set (nodes g)"
  shows "acyclic (set (edges g))"
proof -
  define idx where "idx v = length (takeWhile (\<lambda>x. x \<noteq> v) out)" for v
  have "idx a < idx b" if e: "(a, b) \<in> set (edges g)" for a b
  proof -
    from wf e s have "b \<in> set out" by (simp add: wf_graph_edgeD2)
    then obtain xs ys where o: "out = xs @ b # ys" and nb: "b \<notin> set xs"
      by (auto dest: split_list_first)
    from topo_edge_split [OF t e o] have a: "a \<in> set xs" .
    have "takeWhile (\<lambda>x. x \<noteq> b) (xs @ b # ys) = xs @ takeWhile (\<lambda>x. x \<noteq> b) (b # ys)"
      using nb by (intro takeWhile_append2) auto
    then have "idx b = length xs"
      unfolding idx_def o by simp
    moreover have "idx a < length xs"
    proof -
      have "takeWhile (\<lambda>x. x \<noteq> a) (xs @ b # ys) = takeWhile (\<lambda>x. x \<noteq> a) xs"
        using a by (intro takeWhile_append1 [of a]) auto
      moreover have "length (takeWhile (\<lambda>x. x \<noteq> a) xs) < length xs"
        using a by (rule takeWhile_stops)
      ultimately show ?thesis unfolding idx_def o by simp
    qed
    ultimately show ?thesis by simp
  qed
  then have "set (edges g) \<subseteq> measure idx" by auto
  then have "wf (set (edges g))" by (rule wf_subset [OF wf_measure])
  then show ?thesis by (rule wf_acyclic)
qed

lemma get_topological_sort_acyclic:
  assumes wf: "wf_graph g" and ac: "acyclic (set (edges g))"
  shows "\<exists>raw. topological_sort nx g = Inr raw \<and> get_topological_sort nx g = Inr (rev raw)
               \<and> set raw = set (nodes g) \<and> distinct raw \<and> topo g [] raw"
  using topological_sort_correct [OF wf, where nx = nx] ac
  by (cases "topological_sort nx g") (auto simp: get_topological_sort_def)

lemma get_topological_sort_cyclic:
  assumes wf: "wf_graph g" and cyc: "\<not> acyclic (set (edges g))"
  shows "get_topological_sort nx g = Inr (sort (nodes g))"
proof (cases "topological_sort nx g")
  case (Inl e)
  with topological_sort_correct [OF wf, where nx = nx] show ?thesis
    by (simp add: get_topological_sort_def)
next
  case (Inr out)
  with topological_sort_correct [OF wf, where nx = nx] have "topo g [] out" "set out = set (nodes g)"
    by simp_all
  from topo_acyclic [OF wf this] cyc show ?thesis by simp
qed

lemma get_topological_sort_covers:
  assumes wf: "wf_graph g"
  shows "\<exists>out. get_topological_sort nx g = Inr out \<and> distinct out \<and> set out = set (nodes g)"
proof (cases "acyclic (set (edges g))")
  case True
  from get_topological_sort_acyclic [OF wf True, where nx = nx] show ?thesis by auto
next
  case False
  from wf have "distinct (nodes g)" by (simp add: wf_graph_def)
  with get_topological_sort_cyclic [OF wf False, where nx = nx] show ?thesis by simp
qed

lemma get_topological_sort_order:
  assumes wf: "wf_graph g" and ac: "acyclic (set (edges g))" and e: "(a, b) \<in> set (edges g)"
  shows "\<exists>out. get_topological_sort nx g = Inr out \<and> appears_before out b a"
proof -
  from get_topological_sort_acyclic [OF wf ac, where nx = nx] obtain raw where
    r: "get_topological_sort nx g = Inr (rev raw)" and s: "set raw = set (nodes g)"
    and t: "topo g [] raw" by blast
  from wf e s have "b \<in> set raw" by (simp add: wf_graph_edgeD2)
  then obtain xs ys where o: "raw = xs @ b # ys" by (auto dest: split_list)
  from topo_edge_split [OF t e o] obtain xs1 xs2 where x: "xs = xs1 @ a # xs2"
    by (auto dest: split_list)
  have "rev raw = rev ys @ b # rev xs2 @ a # rev xs1"
    by (simp add: o x)
  then have "appears_before (rev raw) b a" unfolding appears_before_def by blast
  with r show ?thesis by blast
qed

section \<open>What the builder stores\<close>

lemma wf_graph_empty: "wf_graph empty_graph"
  by (simp add: wf_graph_def empty_graph_def)

lemma wf_graph_add_node: "wf_graph g \<Longrightarrow> wf_graph (add_node n g)"
  by (auto simp: wf_graph_def add_node_def)

lemma nodes_add_node_known: "n \<in> set (nodes g) \<Longrightarrow> add_node n g = g"
  by (simp add: add_node_def)

lemma set_nodes_add_node: "set (nodes (add_node n g)) = insert n (set (nodes g))"
  by (auto simp: add_node_def)

lemma edges_add_node: "edges (add_node n g) = edges g"
  by (simp add: add_node_def)

lemma wf_graph_add_edge: "wf_graph g \<Longrightarrow> wf_graph (add_edge u v g)"
proof -
  assume "wf_graph g"
  then have w: "wf_graph (add_node v (add_node u g))"
    by (intro wf_graph_add_node)
  have "u \<in> set (nodes (add_node v (add_node u g)))" "v \<in> set (nodes (add_node v (add_node u g)))"
    by (simp_all add: set_nodes_add_node)
  with w show ?thesis
    by (auto simp: add_edge_def Let_def wf_graph_def)
qed

lemma nodes_add_edge_known:
  "u \<in> set (nodes g) \<Longrightarrow> v \<in> set (nodes g) \<Longrightarrow> nodes (add_edge u v g) = nodes g"
  by (simp add: add_edge_def Let_def nodes_add_node_known)

lemma set_edges_add_edge: "set (edges (add_edge u v g)) = insert (u, v) (set (edges g))"
  by (auto simp: add_edge_def Let_def edges_add_node)

lemma index_file_skip:
  "\<not> endswith p ''.java'' \<Longrightarrow> index_file rt (p, c) st = st"
  by (simp add: index_file_def)

lemma index_file_java:
  "endswith p ''.java'' \<Longrightarrow>
   index_file rt (p, c) st =
     \<lparr>class_to_file = AList.update (full_name (fst (parse_or_fallback rt c)) p) p (class_to_file st),
      graph = add_node p (graph st),
      file_imports = AList.update p (snd (parse_or_fallback rt c)) (file_imports st)\<rparr>"
  by (simp add: index_file_def split: prod.splits)

lemma java_paths_Cons:
  "java_paths ((p, c) # cf) = (if endswith p ''.java'' then p # java_paths cf else java_paths cf)"
  by (simp add: java_paths_def)

lemma index_fold_graph:
  "wf_graph (graph st) \<Longrightarrow>
   wf_graph (graph (fold (index_file rt) cf st))
   \<and> edges (graph (fold (index_file rt) cf st)) = edges (graph st)
   \<and> set (nodes (graph (fold (index_file rt) cf st))) = set (nodes (graph st)) \<union> set (java_paths cf)"
proof (induction cf arbitrary: st)
  case Nil
  then show ?case by (simp add: java_paths_def)
next
  case (Cons e cf)
  obtain p c where e: "e = (p, c)" by (cases e)
  show ?case
  proof (cases "endswith p ''.java''")
    case False
    with Cons show ?thesis by (simp add: e index_file_skip java_paths_Cons)
  next
    case True
    let ?st = "index_file rt (p, c) st"
    have g: "graph ?st = add_node p (graph st)" by (simp add: index_file_java [OF True])
    with Cons.prems have "wf_graph (graph ?st)" by (simp add: wf_graph_add_node)
    from Cons.IH [OF this] show ?thesis
      by (simp add: e g java_paths_Cons True edges_add_node set_nodes_add_node)
  qed
qed

lemma index_fold_nodes_distinct:
  "distinct (map fst cf) \<Longrightarrow> set (java_paths cf) \<inter> set (nodes (graph st)) = {} \<Longrightarrow>
   nodes (graph (fold (index_file rt) cf st)) = nodes (graph st) @ java_paths cf"
proof (induction cf arbitrary: st)
  case Nil
  then show ?case by (simp add: java_paths_def)
next
  case (Cons e cf)
  obtain p c where e: "e = (p, c)" by (cases e)
  from Cons.prems(1) have d: "distinct (map fst cf)" and pn: "p \<notin> fst ` set cf"
    by (auto simp: e)
  show ?case
  proof (cases "endswith p ''.java''")
    case False
    with Cons.prems(2) have "set (java_paths cf) \<inter> set (nodes (graph st)) = {}"
      by (simp add: e java_paths_Cons)
    from Cons.IH [OF d this] False show ?thesis
      by (simp add: e index_file_skip java_paths_Cons)
  next
    case True
    let ?st = "index_file rt (p, c) st"
    from Cons.prems(2) True have new: "p \<notin> set (nodes (graph st))"
      and rest: "set (java_paths cf) \<inter> set (nodes (graph st)) = {}"
      by (auto simp: e java_paths_Cons)
    have g: "nodes (graph ?st) = nodes (graph st) @ [p]"
      using new by (simp add: index_file_java [OF True] add_node_def)
    have "p \<notin> set (java_paths cf)" using pn by (auto simp: java_paths_def)
    with rest have "set (java_paths cf) \<inter> set (nodes (graph ?st)) = {}"
      by (simp add: g)
    from Cons.IH [OF d this] show ?thesis
      by (simp add: e g java_paths_Cons True)
  qed
qed

lemma snd_set_update: "snd ` set (AList.update k v al) \<subseteq> insert v (snd ` set al)"
  by (induction al) auto

lemma index_fold_file_imports_keys:
  "fst ` set (file_imports (fold (index_file rt) cf st))
     = fst ` set (file_imports st) \<union> set (java_paths cf)"
proof (induction cf arbitrary: st)
  case Nil
  then show ?case by (simp add: java_paths_def)
next
  case (Cons e cf)
  obtain p c where e: "e = (p, c)" by (cases e)
  show ?case
  proof (cases "endswith p ''.java''")
    case False
    with Cons.IH [of st] show ?thesis by (simp add: e index_file_skip java_paths_Cons)
  next
    case True
    have "fst ` set (file_imports (index_file rt (p, c) st)) = insert p (fst ` set (file_imports st))"
      by (simp add: index_file_java [OF True] dom_update)
    with Cons.IH [of "index_file rt (p, c) st"] show ?thesis
      by (simp add: e java_paths_Cons True)
  qed
qed

lemma index_fold_class_to_file_values:
  "snd ` set (class_to_file (fold (index_file rt) cf st))
     \<subseteq> snd ` set (class_to_file st) \<union> set (java_paths cf)"
proof (induction cf arbitrary: st)
  case Nil
  then show ?case by (simp add: java_paths_def)
next
  case (Cons e cf)
  obtain p c where e: "e = (p, c)" by (cases e)
  show ?case
  proof (cases "endswith p ''.java''")
    case False
    with Cons.IH [of st] show ?thesis by (simp add: e index_file_skip java_paths_Cons)
  next
    case True
    have b: "snd ` set (class_to_file (index_file rt (p, c) st))
               \<subseteq> insert p (snd ` set (class_to_file st))"
      by (simp add: index_file_java [OF True] snd_set_update)
    have "snd ` set (class_to_file (fold (index_file rt) cf (index_file rt (p, c) st)))
            \<subseteq> snd ` set (class_to_file (index_file rt (p, c) st)) \<union> set (java_paths cf)"
      by (rule Cons.IH)
    also have "\<dots> \<subseteq> insert p (snd ` set (class_to_file st)) \<union> set (java_paths cf)"
      using b by (rule Un_mono) simp
    finally show ?thesis by (simp add: e java_paths_Cons True)
  qed
qed

lemma index_fold_distinct_keys:
  "distinct (map fst (file_imports st)) \<Longrightarrow> distinct (map fst (class_to_file st)) \<Longrightarrow>
   distinct (map fst (file_imports (fold (index_file rt) cf st)))
   \<and> distinct (map fst (class_to_file (fold (index_file rt) cf st)))"
proof (induction cf arbitrary: st)
  case Nil
  then show ?case by simp
next
  case (Cons e cf)
  obtain p c where e: "e = (p, c)" by (cases e)
  show ?case
  proof (cases "endswith p ''.java''")
    case False
    with Cons.IH [OF Cons.prems] show ?thesis by (simp add: e index_file_skip)
  next
    case True
    have "distinct (map fst (file_imports (index_file rt (p, c) st)))"
      "distinct (map fst (class_to_file (index_file rt (p, c) st)))"
      using Cons.prems by (simp_all add: index_file_java [OF True] distinct_update)
    from Cons.IH [OF this] show ?thesis by (simp add: e)
  qed
qed

lemma add_import_edges_fold:
  "add_import_edges rt c2f (p, imps) g = fold (resolve_step c2f p) (set_order rt imps) g"
proof -
  have "(\<lambda>imp g'. case map_of c2f imp of None \<Rightarrow> g' | Some t \<Rightarrow> add_edge p t g')
        = resolve_step c2f p"
    by (intro ext) (simp add: resolve_step_def)
  then show ?thesis by (simp add: add_import_edges_def)
qed

lemma resolve_fold_wf: "wf_graph g \<Longrightarrow> wf_graph (fold (resolve_step c2f p) xs g)"
  by (induction xs arbitrary: g) (auto simp: resolve_step_def wf_graph_add_edge split: option.splits)

lemma resolve_fold_nodes:
  "p \<in> set (nodes g) \<Longrightarrow> snd ` set c2f \<subseteq> set (nodes g) \<Longrightarrow>
   nodes (fold (resolve_step c2f p) xs g) = nodes g"
proof (induction xs arbitrary: g)
  case Nil
  then show ?case by simp
next
  case (Cons imp xs)
  have n: "nodes (resolve_step c2f p imp g) = nodes g"
  proof (cases "map_of c2f imp")
    case None
    then show ?thesis by (simp add: resolve_step_def)
  next
    case (Some t)
    then have "(imp, t) \<in> set c2f" by (rule map_of_SomeD)
    then have "t \<in> snd ` set c2f" by force
    with Cons.prems have "t \<in> set (nodes g)" by blast
    with Cons.prems(1) Some show ?thesis
      by (simp add: resolve_step_def nodes_add_edge_known)
  qed
  with Cons.prems have "nodes (fold (resolve_step c2f p) xs (resolve_step c2f p imp g))
                         = nodes (resolve_step c2f p imp g)"
    by (intro Cons.IH) simp_all
  with n show ?case by simp
qed

lemma resolve_fold_edges:
  "set (edges (fold (resolve_step c2f p) xs g))
     = set (edges g) \<union> {(p, t) | t. \<exists>imp \<in> set xs. map_of c2f imp = Some t}"
proof (induction xs arbitrary: g)
  case Nil
  then show ?case by simp
next
  case (Cons imp xs)
  have "set (edges (resolve_step c2f p imp g))
          = set (edges g) \<union> {(p, t) | t. map_of c2f imp = Some t}"
    by (cases "map_of c2f imp") (simp_all add: resolve_step_def set_edges_add_edge)
  with Cons.IH [of "resolve_step c2f p imp g"] show ?case by auto
qed

lemma edge_pass_wf:
  "wf_graph g \<Longrightarrow> wf_graph (fold (add_import_edges rt c2f) fi g)"
proof (induction fi arbitrary: g)
  case Nil
  then show ?case by simp
next
  case (Cons e fi)
  obtain p imps where e: "e = (p, imps)" by (cases e)
  from Cons.prems have "wf_graph (add_import_edges rt c2f (p, imps) g)"
    by (simp add: add_import_edges_fold resolve_fold_wf)
  from Cons.IH [OF this] show ?case by (simp add: e)
qed

lemma edge_pass_nodes:
  "fst ` set fi \<subseteq> set (nodes g) \<Longrightarrow> snd ` set c2f \<subseteq> set (nodes g) \<Longrightarrow>
   nodes (fold (add_import_edges rt c2f) fi g) = nodes g"
proof (induction fi arbitrary: g)
  case Nil
  then show ?case by simp
next
  case (Cons e fi)
  obtain p imps where e: "e = (p, imps)" by (cases e)
  from Cons.prems have p: "p \<in> set (nodes g)" by (simp add: e)
  have n: "nodes (add_import_edges rt c2f (p, imps) g) = nodes g"
    unfolding add_import_edges_fold by (rule resolve_fold_nodes [OF p Cons.prems(2)])
  from Cons.prems have "fst ` set fi \<subseteq> set (nodes g)" by simp
  with Cons.prems(2) have "nodes (fold (add_import_edges rt c2f) fi (add_import_edges rt c2f (p, imps) g))
                            = nodes (add_import_edges rt c2f (p, imps) g)"
    by (intro Cons.IH) (simp_all add: n)
  with n show ?case by (simp add: e)
qed

lemma edge_pass_edges:
  "set (edges (fold (add_import_edges rt c2f) fi g))
     = set (edges g)
       \<union> {(p, t). \<exists>imps imp. (p, imps) \<in> set fi \<and> imp \<in> set (set_order rt imps)
                               \<and> map_of c2f imp = Some t}"
proof (induction fi arbitrary: g)
  case Nil
  then show ?case by simp
next
  case (Cons e fi)
  obtain p imps where e: "e = (p, imps)" by (cases e)
  have one: "set (edges (add_import_edges rt c2f (p, imps) g))
               = set (edges g)
                 \<union> {(p, t) | t. \<exists>imp \<in> set (set_order rt imps). map_of c2f imp = Some t}"
    unfolding add_import_edges_fold by (rule resolve_fold_edges)
  have "set (edges (fold (add_import_edges rt c2f) (e # fi) g))
          = set (edges (add_import_edges rt c2f (p, imps) g))
            \<union> {(p, t). \<exists>imps imp. (p, imps) \<in> set fi \<and> imp \<in> set (set_order rt imps)
                                    \<and> map_of c2f imp = Some t}"
    using Cons.IH [of "add_import_edges rt c2f (p, imps) g"] by (simp add: e)
  also have "\<dots> = set (edges g)
       \<union> {(p, t). \<exists>imps imp. (p, imps) \<in> set (e # fi) \<and> imp \<in> set (set_order rt imps)
                               \<and> map_of c2f imp = Some t}"
    unfolding one e by auto
  finally show ?case .
qed

lemma index_pass_graph:
  "wf_graph (graph (index_pass rt cf))"
  "edges (graph (index_pass rt cf)) = []"
  "set (nodes (graph (index_pass rt cf))) = set (java_paths cf)"
  using index_fold_graph [of "\<lparr>class_to_file = [], graph = empty_graph, file_imports = []\<rparr>" rt cf]
  by (simp_all add: index_pass_def wf_graph_empty) (simp_all add: empty_graph_def)

lemma index_pass_nodes:
  "distinct (map fst cf) \<Longrightarrow> nodes (graph (index_pass rt cf)) = java_paths cf"
  using index_fold_nodes_distinct
          [of cf "\<lparr>class_to_file = [], graph = empty_graph, file_imports = []\<rparr>" rt]
  by (simp add: index_pass_def empty_graph_def)

lemma index_pass_tables:
  "fst ` set (file_imports (index_pass rt cf)) = set (java_paths cf)"
  "snd ` set (class_to_file (index_pass rt cf)) \<subseteq> set (java_paths cf)"
  "distinct (map fst (file_imports (index_pass rt cf)))"
  "distinct (map fst (class_to_file (index_pass rt cf)))"
  using index_fold_file_imports_keys
          [of rt cf "\<lparr>class_to_file = [], graph = empty_graph, file_imports = []\<rparr>"]
        index_fold_class_to_file_values
          [of rt cf "\<lparr>class_to_file = [], graph = empty_graph, file_imports = []\<rparr>"]
        index_fold_distinct_keys
          [of "\<lparr>class_to_file = [], graph = empty_graph, file_imports = []\<rparr>" rt cf]
  by (simp_all add: index_pass_def)

lemma build_graph_wf: "wf_graph (build_graph rt cf)"
  by (simp add: build_graph_def Let_def edge_pass_wf index_pass_graph(1))

lemma build_graph_nodes_eq: "nodes (build_graph rt cf) = nodes (graph (index_pass rt cf))"
  unfolding build_graph_def Let_def
  by (rule edge_pass_nodes) (simp_all add: index_pass_tables index_pass_graph)

lemma build_graph_set_nodes: "set (nodes (build_graph rt cf)) = set (java_paths cf)"
  by (simp add: build_graph_nodes_eq index_pass_graph)

lemma build_graph_nodes:
  "distinct (map fst cf) \<Longrightarrow> nodes (build_graph rt cf) = java_paths cf"
  by (simp add: build_graph_nodes_eq index_pass_nodes)

lemma build_graph_edges:
  "set (edges (build_graph rt cf))
     = {(p, t). \<exists>imps imp. (p, imps) \<in> set (file_imports (index_pass rt cf))
                           \<and> imp \<in> set (set_order rt imps)
                           \<and> map_of (class_to_file (index_pass rt cf)) imp = Some t}"
  by (simp add: build_graph_def Let_def edge_pass_edges index_pass_graph(2))

lemma visit_generation_no_edges:
  "edges g = [] \<Longrightarrow> set ns \<subseteq> set (nodes g) \<Longrightarrow> visit_generation g st ns = Inr st"
  by (induction ns) (auto simp: neighbors_def)

lemma stack_loop_no_edges:
  "edges g = [] \<Longrightarrow> set z \<subseteq> set (nodes g) \<Longrightarrow> stack_loop g [] z = Inr (rev z)"
proof (induction z rule: rev_induct)
  case Nil
  show ?case by (subst stack_loop.simps) simp
next
  case (snoc n z)
  then have "stack_loop g [] z = Inr (rev z)" by simp
  moreover have "neighbors g n = []" using snoc.prems(1) by (simp add: neighbors_def)
  ultimately show ?case
    using snoc.prems(2) by (subst stack_loop.simps) simp
qed

lemma topological_sort_no_edges:
  assumes "edges g = []"
  shows "topological_sort nx g
           = Inr (case nx of Generations \<Rightarrow> nodes g | Stack_loop \<Rightarrow> rev (nodes g))"
proof -
  have m: "initial_indegree_map g = []"
    using assms by (simp add: initial_indegree_map_def in_degree_def filter_empty_conv)
  have z: "initial_zero_indegree g = nodes g"
    using assms by (simp add: initial_zero_indegree_def in_degree_def comp_def)
  have stop: "generations_loop g [] [] = Inr []"
    by (subst generations_loop.simps) simp
  have "generations_loop g [] (nodes g) = Inr (if nodes g = [] then [] else [nodes g])"
  proof (cases "nodes g = []")
    case True
    with stop show ?thesis by simp
  next
    case False
    have "visit_generation g ([], []) (nodes g) = Inr ([], [])"
      using assms by (intro visit_generation_no_edges) simp_all
    with False stop show ?thesis
      by (subst generations_loop.simps) simp
  qed
  moreover have "stack_loop g [] (nodes g) = Inr (rev (nodes g))"
    using assms by (intro stack_loop_no_edges) simp_all
  ultimately show ?thesis
    by (cases nx) (simp_all add: topological_sort_def topological_generations_def m z)
qed

lemma class_to_file_last_wins:
  "map_of (class_to_file (fold (index_file rt) cf st)) n
     = (case find (\<lambda>e. endswith (fst e) ''.java'' \<and> symbol_key rt e = n) (rev cf) of
          Some e \<Rightarrow> Some (fst e)
        | None \<Rightarrow> map_of (class_to_file st) n)"
proof (induction cf rule: rev_induct)
  case Nil
  then show ?case by simp
next
  case (snoc e cf)
  obtain p c where e: "e = (p, c)" by (cases e)
  show ?case
  proof (cases "endswith p ''.java''")
    case False
    with snoc show ?thesis by (simp add: e index_file_skip)
  next
    case True
    with snoc show ?thesis
      by (simp add: e index_file_java update_conv' symbol_key_def)
  qed
qed

section \<open>Properties of the linearizer\<close>

text \<open>
  \<^bold>\<open>C1.\<close> If the graph that \<open>build_graph\<close> builds is acyclic, then for every edge from
  \<open>a\<close> to \<open>b\<close> (the file \<open>a\<close> references the file \<open>b\<close>) the sequence that
  \<open>get_topological_sort\<close> returns has \<open>b\<close> before \<open>a\<close>; no path is in the sequence
  twice, so \<open>b\<close> is strictly before \<open>a\<close>.
\<close>

theorem dependencies_come_first:
  assumes "acyclic (set (edges (build_graph rt code_files)))"
    and "(a, b) \<in> set (edges (build_graph rt code_files))"
  shows "\<exists>out. get_topological_sort (networkx rt) (build_graph rt code_files) = Inr out
               \<and> distinct out \<and> appears_before out b a"
proof -
  from get_topological_sort_order [OF build_graph_wf assms, where nx = "networkx rt"] obtain out where
    o: "get_topological_sort (networkx rt) (build_graph rt code_files) = Inr out" "appears_before out b a"
    by blast
  from get_topological_sort_covers [OF build_graph_wf, where nx = "networkx rt" and rt1 = rt and cf1 = code_files] o(1)
  have "distinct out" by auto
  with o show ?thesis by blast
qed

theorem dependencies_come_first_witness:
  "acyclic (set (edges (build_graph \<lparr>javalang = None, set_order = remdups, networkx = Generations\<rparr>
      [(''A.java'', ''package p; import p.B;''), (''B.java'', ''package p;'')])))
   \<and> (''A.java'', ''B.java'') \<in> set (edges (build_graph \<lparr>javalang = None, set_order = remdups, networkx = Generations\<rparr>
      [(''A.java'', ''package p; import p.B;''), (''B.java'', ''package p;'')]))
   \<and> (\<exists>out. get_topological_sort Generations
      (build_graph \<lparr>javalang = None, set_order = remdups, networkx = Generations\<rparr>
      [(''A.java'', ''package p; import p.B;''), (''B.java'', ''package p;'')]) = Inr out
        \<and> distinct out \<and> appears_before out ''B.java'' ''A.java'')"
proof -
  have g: "build_graph \<lparr>javalang = None, set_order = remdups, networkx = Generations\<rparr>
             [(''A.java'', ''package p; import p.B;''), (''B.java'', ''package p;'')]
           = \<lparr>nodes = [''A.java'', ''B.java''], edges = [(''A.java'', ''B.java'')]\<rparr>"
    by code_simp
  have h1: "acyclic (set (edges (build_graph \<lparr>javalang = None, set_order = remdups, networkx = Generations\<rparr>
             [(''A.java'', ''package p; import p.B;''), (''B.java'', ''package p;'')])))"
    unfolding g by (simp add: acyclic_insert wf_acyclic)
  have h2: "(''A.java'', ''B.java'') \<in> set (edges (build_graph \<lparr>javalang = None, set_order = remdups, networkx = Generations\<rparr>
             [(''A.java'', ''package p; import p.B;''), (''B.java'', ''package p;'')]))"
    unfolding g by simp
  from dependencies_come_first [OF h1 h2, unfolded runtime.select_convs] h1 h2
  show ?thesis by blast
qed

text \<open>
  \<^bold>\<open>C2.\<close> If the graph has a cycle, a self-loop of a file that imports its own
  fully-qualified name included, \<open>get_topological_sort\<close> returns, without an error, the
  list of all node paths sorted lexicographically.
\<close>

theorem cycle_falls_back_to_sorted_paths:
  assumes "\<not> acyclic (set (edges (build_graph rt code_files)))
           \<or> (\<exists>p. (p, p) \<in> set (edges (build_graph rt code_files)))"
  shows "get_topological_sort (networkx rt) (build_graph rt code_files)
           = Inr (sort (nodes (build_graph rt code_files)))"
proof -
  have "\<not> acyclic (set (edges (build_graph rt code_files)))"
    using assms by (auto simp: acyclic_def)
  then show ?thesis by (intro get_topological_sort_cyclic build_graph_wf)
qed

theorem cycle_falls_back_to_sorted_paths_witness:
  "(''src/B.java'', ''src/B.java'') \<in> set (edges (build_graph \<lparr>javalang = None, set_order = remdups, networkx = Generations\<rparr>
      [(''src/B.java'', ''package p; import p.B;''), (''src/A.java'', ''package p;'')]))
   \<and> get_topological_sort Generations
      (build_graph \<lparr>javalang = None, set_order = remdups, networkx = Generations\<rparr>
      [(''src/B.java'', ''package p; import p.B;''), (''src/A.java'', ''package p;'')])
       = Inr [''src/A.java'', ''src/B.java'']"
proof -
  have g: "build_graph \<lparr>javalang = None, set_order = remdups, networkx = Generations\<rparr>
             [(''src/B.java'', ''package p; import p.B;''), (''src/A.java'', ''package p;'')]
           = \<lparr>nodes = [''src/B.java'', ''src/A.java''], edges = [(''src/B.java'', ''src/B.java'')]\<rparr>"
    by code_simp
  have s: "sort [''src/B.java'', ''src/A.java''] = [''src/A.java'', ''src/B.java'']"
    by code_simp
  have l: "(''src/B.java'', ''src/B.java'') \<in> set (edges (build_graph \<lparr>javalang = None, set_order = remdups, networkx = Generations\<rparr>
             [(''src/B.java'', ''package p; import p.B;''), (''src/A.java'', ''package p;'')]))"
    unfolding g by simp
  then have h: "\<not> acyclic (set (edges (build_graph \<lparr>javalang = None, set_order = remdups, networkx = Generations\<rparr>
             [(''src/B.java'', ''package p; import p.B;''), (''src/A.java'', ''package p;'')])))
    \<or> (\<exists>p. (p, p) \<in> set (edges (build_graph \<lparr>javalang = None, set_order = remdups, networkx = Generations\<rparr>
             [(''src/B.java'', ''package p; import p.B;''), (''src/A.java'', ''package p;'')])))"
    by blast
  from cycle_falls_back_to_sorted_paths [OF h] l show ?thesis
    by (simp add: g s)
qed

text \<open>
  \<^bold>\<open>C3.\<close> For every input mapping the sequence returned after \<open>build_graph\<close> holds
  exactly the keys of the mapping that end in \<^verbatim>\<open>.java\<close>, each once, whichever branch
  of \<open>get_topological_sort\<close> produced it.
\<close>

theorem every_java_path_once:
  "\<exists>out. get_topological_sort (networkx rt) (build_graph rt code_files) = Inr out
         \<and> distinct out
         \<and> set out = {p \<in> fst ` set code_files. endswith p ''.java''}"
proof -
  have "set (java_paths code_files) = {p \<in> fst ` set code_files. endswith p ''.java''}"
    by (auto simp: java_paths_def)
  with get_topological_sort_covers
         [OF build_graph_wf, where nx = "networkx rt" and rt1 = rt and cf1 = code_files]
  show ?thesis
    by (simp add: build_graph_set_nodes)
qed

theorem every_java_path_once_witness:
  "get_topological_sort Generations
      (build_graph \<lparr>javalang = None, set_order = remdups, networkx = Generations\<rparr>
      [(''A.java'', ''import B;''), (''notes.md'', ''import A;''), (''B.java'', ''import A;'')])
     = Inr [''A.java'', ''B.java'']
   \<and> {p \<in> fst ` set [(''A.java'', ''import B;''), (''notes.md'', ''import A;''),
                          (''B.java'', ''import A;'')]. endswith p ''.java''}
       = {''A.java'', ''B.java''}"
proof -
  have r: "get_topological_sort Generations
      (build_graph \<lparr>javalang = None, set_order = remdups, networkx = Generations\<rparr>
      [(''A.java'', ''import B;''), (''notes.md'', ''import A;''), (''B.java'', ''import A;'')])
     = Inr [''A.java'', ''B.java'']"
    by code_simp
  from every_java_path_once [of "\<lparr>javalang = None, set_order = remdups, networkx = Generations\<rparr>"
      "[(''A.java'', ''import B;''), (''notes.md'', ''import A;''), (''B.java'', ''import A;'')]",
      unfolded runtime.select_convs]
  show ?thesis unfolding r by auto
qed

text \<open>
  \<^bold>\<open>C10.\<close> The claim that an edge-free graph comes back in the reverse of the input
  order, and that unconstrained nodes are ordered in reverse of their insertion, fails
  twice. With the stack loop of the releases before 2.6 three files without imports come
  back in their input order. And with the generation loop, where \<^verbatim>\<open>A.java\<close> imports
  \<^verbatim>\<open>B\<close> and \<^verbatim>\<open>C.java\<close> stands alone, the unconstrained \<^verbatim>\<open>B.java\<close> and \<^verbatim>\<open>C.java\<close>
  come back in their input order.
\<close>

theorem tie_break_is_not_reverse_insertion:
  "edges (build_graph \<lparr>javalang = None, set_order = remdups, networkx = Stack_loop\<rparr>
      [(''b/B.java'', ''''), (''a/A.java'', ''''), (''c/C.java'', '''')]) = []
   \<and> get_topological_sort Stack_loop
        (build_graph \<lparr>javalang = None, set_order = remdups, networkx = Stack_loop\<rparr>
          [(''b/B.java'', ''''), (''a/A.java'', ''''), (''c/C.java'', '''')])
       = Inr [''b/B.java'', ''a/A.java'', ''c/C.java'']
   \<and> get_topological_sort Generations
        (build_graph \<lparr>javalang = None, set_order = remdups, networkx = Generations\<rparr>
          [(''A.java'', ''import B;''), (''B.java'', ''''), (''C.java'', '''')])
       = Inr [''B.java'', ''C.java'', ''A.java'']"
  by code_simp

text \<open>
  \<^bold>\<open>C10, as the code has it.\<close> When the built graph has no edge, \<open>get_topological_sort\<close>
  returns the \<^verbatim>\<open>.java\<close> paths of the input mapping in the reverse of their input order
  under the generation loop of \<^verbatim>\<open>networkx\<close> (release 2.6 and later) and in their input
  order under the stack loop (earlier releases); in both cases the order follows the
  input mapping, not the lexicographic order of the paths.
\<close>

theorem no_edges_order_follows_input:
  assumes "edges (build_graph rt code_files) = []" and "distinct (map fst code_files)"
  shows "get_topological_sort (networkx rt) (build_graph rt code_files)
           = Inr (case networkx rt of
                    Generations \<Rightarrow> rev (java_paths code_files)
                  | Stack_loop \<Rightarrow> java_paths code_files)"
  using topological_sort_no_edges [OF assms(1), of "networkx rt"]
    build_graph_nodes [OF assms(2), of rt]
  by (cases "networkx rt") (simp_all add: get_topological_sort_def)

theorem no_edges_order_follows_input_witness:
  "edges (build_graph \<lparr>javalang = None, set_order = remdups, networkx = Generations\<rparr>
      [(''b/B.java'', ''import java.util.List;''), (''pom.xml'', ''''), (''a/A.java'', ''''),
       (''c/C.java'', ''package c;'')]) = []
   \<and> distinct (map fst [(''b/B.java'', ''import java.util.List;''), (''pom.xml'', ''''),
       (''a/A.java'', ''''), (''c/C.java'', ''package c;'')])
   \<and> get_topological_sort Generations
        (build_graph \<lparr>javalang = None, set_order = remdups, networkx = Generations\<rparr>
          [(''b/B.java'', ''import java.util.List;''), (''pom.xml'', ''''), (''a/A.java'', ''''),
           (''c/C.java'', ''package c;'')]) = Inr [''c/C.java'', ''a/A.java'', ''b/B.java'']
   \<and> get_topological_sort Stack_loop
        (build_graph \<lparr>javalang = None, set_order = remdups, networkx = Stack_loop\<rparr>
          [(''b/B.java'', ''import java.util.List;''), (''pom.xml'', ''''), (''a/A.java'', ''''),
           (''c/C.java'', ''package c;'')]) = Inr [''b/B.java'', ''a/A.java'', ''c/C.java'']"
proof -
  have h1: "edges (build_graph \<lparr>javalang = None, set_order = remdups, networkx = Generations\<rparr>
      [(''b/B.java'', ''import java.util.List;''), (''pom.xml'', ''''), (''a/A.java'', ''''),
       (''c/C.java'', ''package c;'')]) = []"
    by code_simp
  have h1': "edges (build_graph \<lparr>javalang = None, set_order = remdups, networkx = Stack_loop\<rparr>
      [(''b/B.java'', ''import java.util.List;''), (''pom.xml'', ''''), (''a/A.java'', ''''),
       (''c/C.java'', ''package c;'')]) = []"
    by code_simp
  have h2: "distinct (map fst [(''b/B.java'', ''import java.util.List;''), (''pom.xml'', ''''),
       (''a/A.java'', ''''), (''c/C.java'', ''package c;'')])"
    by simp
  have j: "java_paths [(''b/B.java'', ''import java.util.List;''), (''pom.xml'', ''''),
       (''a/A.java'', ''''), (''c/C.java'', ''package c;'')] = [''b/B.java'', ''a/A.java'', ''c/C.java'']"
    by code_simp
  from no_edges_order_follows_input [OF h1 h2] no_edges_order_follows_input [OF h1' h2] h1 h2
  show ?thesis
    unfolding j by simp
qed

section \<open>Properties of the builder\<close>

lemma file_imports_lookup:
  "((p, imps) \<in> set (file_imports (index_pass rt cf)))
     = (map_of (file_imports (index_pass rt cf)) p = Some imps)"
  using index_pass_tables(3) [of rt cf] by (auto dest: map_of_SomeD)

lemma build_graph_edge_iff:
  assumes "\<forall>xs. set (set_order rt xs) = set xs"
  shows "((a, b) \<in> set (edges (build_graph rt cf)))
           = (\<exists>imps imp. map_of (file_imports (index_pass rt cf)) a = Some imps \<and> imp \<in> set imps
                \<and> map_of (class_to_file (index_pass rt cf)) imp = Some b)"
  using assms by (simp add: build_graph_edges file_imports_lookup)

lemma index_pass_runtime:
  assumes "javalang rt1 = javalang rt2"
  shows "index_pass rt1 cf = index_pass rt2 cf"
proof -
  have p: "parse rt1 c = parse rt2 c" for c
    using assms by (simp add: parse_def)
  have q: "parse_or_fallback rt1 c = parse_or_fallback rt2 c" for c
    by (simp add: parse_or_fallback_def p)
  have "index_file rt1 e st = index_file rt2 e st" for e st
    by (cases e) (simp add: index_file_def q)
  then have "index_file rt1 = index_file rt2" by (intro ext)
  then show ?thesis by (simp add: index_pass_def)
qed

text \<open>
  \<^bold>\<open>C5.\<close> Every edge of the built graph joins two nodes of the graph, both of them
  \<^verbatim>\<open>.java\<close> paths of the input; and there is an edge from \<open>a\<close> to \<open>b\<close> exactly when
  a reference recorded for \<open>a\<close> is a key of \<open>class_to_file\<close> with value \<open>b\<close>, so that a
  reference that is no key makes no edge. The builder has no error to return.
\<close>

theorem edges_only_between_indexed_files:
  assumes "\<forall>xs. set (set_order rt xs) = set xs"
  shows "(\<forall>e \<in> set (edges (build_graph rt code_files)).
            fst e \<in> set (nodes (build_graph rt code_files))
            \<and> snd e \<in> set (nodes (build_graph rt code_files))
            \<and> fst e \<in> set (java_paths code_files) \<and> snd e \<in> set (java_paths code_files))
         \<and> (\<forall>a b. ((a, b) \<in> set (edges (build_graph rt code_files)))
               = (\<exists>imps imp. map_of (file_imports (index_pass rt code_files)) a = Some imps
                    \<and> imp \<in> set imps
                    \<and> map_of (class_to_file (index_pass rt code_files)) imp = Some b))"
proof -
  have "fst e \<in> set (nodes (build_graph rt code_files))
        \<and> snd e \<in> set (nodes (build_graph rt code_files))"
    if "e \<in> set (edges (build_graph rt code_files))" for e
    using that build_graph_wf [of rt code_files] by (simp add: wf_graph_def)
  then show ?thesis
    using build_graph_edge_iff [OF assms] by (simp add: build_graph_set_nodes)
qed

theorem edges_only_between_indexed_files_witness:
  "(\<forall>xs. set (set_order \<lparr>javalang = None, set_order = remdups, networkx = Generations\<rparr> xs) = set xs)
   \<and> map_of (file_imports (index_pass \<lparr>javalang = None, set_order = remdups, networkx = Generations\<rparr>
        [(''A.java'', ''package p; import java.util.List; import p.B;''), (''B.java'', ''package p;'')]))
        ''A.java'' = Some [''java.util.List'', ''p.B'']
   \<and> map_of (class_to_file (index_pass \<lparr>javalang = None, set_order = remdups, networkx = Generations\<rparr>
        [(''A.java'', ''package p; import java.util.List; import p.B;''), (''B.java'', ''package p;'')]))
        ''java.util.List'' = None
   \<and> (''A.java'', ''B.java'') \<in> set (edges (build_graph \<lparr>javalang = None, set_order = remdups, networkx = Generations\<rparr>
        [(''A.java'', ''package p; import java.util.List; import p.B;''), (''B.java'', ''package p;'')]))
   \<and> ''B.java'' \<in> set (java_paths
        [(''A.java'', ''package p; import java.util.List; import p.B;''), (''B.java'', ''package p;'')])"
proof -
  have h: "\<forall>xs. set (set_order \<lparr>javalang = None, set_order = remdups, networkx = Generations\<rparr> xs) = set xs"
    by simp
  have i: "map_of (file_imports (index_pass \<lparr>javalang = None, set_order = remdups, networkx = Generations\<rparr>
        [(''A.java'', ''package p; import java.util.List; import p.B;''), (''B.java'', ''package p;'')]))
        ''A.java'' = Some [''java.util.List'', ''p.B'']"
    by code_simp
  have n: "map_of (class_to_file (index_pass \<lparr>javalang = None, set_order = remdups, networkx = Generations\<rparr>
        [(''A.java'', ''package p; import java.util.List; import p.B;''), (''B.java'', ''package p;'')]))
        ''java.util.List'' = None"
    by code_simp
  have b: "map_of (class_to_file (index_pass \<lparr>javalang = None, set_order = remdups, networkx = Generations\<rparr>
        [(''A.java'', ''package p; import java.util.List; import p.B;''), (''B.java'', ''package p;'')]))
        ''p.B'' = Some ''B.java''"
    by code_simp
  note t = edges_only_between_indexed_files [OF h,
      of "[(''A.java'', ''package p; import java.util.List; import p.B;''), (''B.java'', ''package p;'')]"]
  from t i b have e: "(''A.java'', ''B.java'') \<in> set (edges (build_graph \<lparr>javalang = None, set_order = remdups, networkx = Generations\<rparr>
        [(''A.java'', ''package p; import java.util.List; import p.B;''), (''B.java'', ''package p;'')]))"
    by auto
  with t have "''B.java'' \<in> set (java_paths
        [(''A.java'', ''package p; import java.util.List; import p.B;''), (''B.java'', ''package p;'')])"
    by fastforce
  with h i n e show ?thesis by blast
qed

text \<open>
  \<^bold>\<open>C6.\<close> After the first loop \<open>class_to_file\<close> has every fully-qualified name at most
  once, and a name is mapped to the last file of the input, in processing order, that
  computes it: a later file with the same name overwrites the earlier one.
\<close>

theorem symbol_index_last_write_wins:
  "distinct (map fst (class_to_file (index_pass rt code_files)))
   \<and> map_of (class_to_file (index_pass rt code_files)) n
       = (case find (\<lambda>e. endswith (fst e) ''.java'' \<and> symbol_key rt e = n) (rev code_files) of
            Some e \<Rightarrow> Some (fst e)
          | None \<Rightarrow> None)"
proof -
  have "map_of (class_to_file (index_pass rt code_files)) n
       = (case find (\<lambda>e. endswith (fst e) ''.java'' \<and> symbol_key rt e = n) (rev code_files) of
            Some e \<Rightarrow> Some (fst e)
          | None \<Rightarrow> None)"
    unfolding index_pass_def class_to_file_last_wins by (simp split: option.splits)
  with index_pass_tables(4) [of rt code_files] show ?thesis by blast
qed

theorem symbol_index_last_write_wins_witness:
  "symbol_key \<lparr>javalang = None, set_order = remdups, networkx = Generations\<rparr> (''a/Foo.java'', ''package p;'') = ''p.Foo''
   \<and> symbol_key \<lparr>javalang = None, set_order = remdups, networkx = Generations\<rparr> (''b/Foo.java'', ''package p;'') = ''p.Foo''
   \<and> map_of (class_to_file (index_pass \<lparr>javalang = None, set_order = remdups, networkx = Generations\<rparr>
        [(''a/Foo.java'', ''package p;''), (''b/Foo.java'', ''package p;'')])) ''p.Foo''
       = Some ''b/Foo.java''"
proof -
  have k1: "symbol_key \<lparr>javalang = None, set_order = remdups, networkx = Generations\<rparr> (''a/Foo.java'', ''package p;'') = ''p.Foo''"
    by code_simp
  have k2: "symbol_key \<lparr>javalang = None, set_order = remdups, networkx = Generations\<rparr> (''b/Foo.java'', ''package p;'') = ''p.Foo''"
    by code_simp
  have e: "endswith ''b/Foo.java'' ''.java''" by code_simp
  from symbol_index_last_write_wins [of "\<lparr>javalang = None, set_order = remdups, networkx = Generations\<rparr>"
      "[(''a/Foo.java'', ''package p;''), (''b/Foo.java'', ''package p;'')]" "''p.Foo''"]
  have "map_of (class_to_file (index_pass \<lparr>javalang = None, set_order = remdups, networkx = Generations\<rparr>
        [(''a/Foo.java'', ''package p;''), (''b/Foo.java'', ''package p;'')])) ''p.Foo''
       = Some ''b/Foo.java''"
    by (simp add: k2 e)
  with k1 k2 show ?thesis by blast
qed

section \<open>Type names and the parser\<close>

lemma replace_java_stem:
  "CHR ''.'' \<notin> set stem \<Longrightarrow> replace ''.java'' '''' (stem @ ''.java'') = stem"
proof (induction stem)
  case Nil
  have "replace ''.java'' '''' [] = []"
    by (subst replace.simps) (simp add: startswith_def)
  then show ?case
    by (subst replace.simps) (simp add: startswith_def)
next
  case (Cons c stem)
  then have "c \<noteq> CHR ''.''" by auto
  then have "\<not> startswith (c # stem @ ''.java'') ''.java''"
    by (simp add: startswith_def)
  with Cons show ?case
    by (subst replace.simps) simp
qed

lemma length_split: "length (split sep s) = Suc (length (filter (\<lambda>c. c = sep) s))"
  by (induction s) (auto split: list.splits)

lemma split_no_separator: "sep \<notin> set b \<Longrightarrow> split sep b = [b]"
  by (induction b) auto

lemma last_split:
  "CHR ''/'' \<notin> set b \<Longrightarrow> last (split CHR ''/'' (d @ CHR ''/'' # b)) = b"
proof (induction d)
  case Nil
  then show ?case by (simp add: split_no_separator)
next
  case (Cons c d)
  obtain w ws where s: "split CHR ''/'' (d @ CHR ''/'' # b) = w # ws"
    using length_split [of "CHR ''/''" "d @ CHR ''/'' # b"]
    by (cases "split CHR ''/'' (d @ CHR ''/'' # b)") auto
  have "ws \<noteq> []"
    using length_split [of "CHR ''/''" "d @ CHR ''/'' # b"] unfolding s by auto
  with Cons s show ?case by auto
qed

lemma class_name_plain:
  assumes "CHR ''/'' \<notin> set stem" "CHR ''.'' \<notin> set stem"
  shows "class_name (d @ CHR ''/'' # stem @ ''.java'') = stem"
    and "base_name_without_extension (d @ CHR ''/'' # stem @ ''.java'') = stem"
proof -
  have "CHR ''/'' \<notin> set (stem @ ''.java'')" using assms(1) by simp
  then have l: "last (split CHR ''/'' (d @ CHR ''/'' # stem @ ''.java'')) = stem @ ''.java''"
    by (rule last_split)
  show "class_name (d @ CHR ''/'' # stem @ ''.java'') = stem"
    unfolding class_name_def l by (rule replace_java_stem [OF assms(2)])
  show "base_name_without_extension (d @ CHR ''/'' # stem @ ''.java'') = stem"
    unfolding base_name_without_extension_def l by simp
qed

text \<open>
  \<^bold>\<open>C4.\<close> The type name of an indexed file is its base name with the extension
  stripped, and the key is the namespace, a dot and the type name, or the type name alone
  for an empty namespace. \<^verbatim>\<open>build_graph\<close> takes the extension off with
  \<^verbatim>\<open>replace(".java", "")\<close>, which removes every occurrence: for the path
  \<^verbatim>\<open>src/Foo.java.java\<close> it computes the type name \<^verbatim>\<open>Foo\<close>, not \<^verbatim>\<open>Foo.java\<close>, and the
  key of that file is the key of \<^verbatim>\<open>src/Foo.java\<close>.
\<close>

theorem class_name_removes_every_extension:
  "endswith ''src/Foo.java.java'' ''.java''
   \<and> base_name_without_extension ''src/Foo.java.java'' = ''Foo.java''
   \<and> class_name ''src/Foo.java.java'' = ''Foo''
   \<and> full_name ''p'' ''src/Foo.java.java'' = full_name ''p'' ''src/Foo.java''"
  by code_simp

text \<open>
  \<^bold>\<open>C7.\<close> The claim that \<open>parse\<close> hides the fallback and never hands the sentinel to
  its caller fails: without \<^verbatim>\<open>javalang\<close> the sentinel is what \<open>parse\<close> returns.
\<close>

theorem parse_returns_sentinel:
  "parse \<lparr>javalang = None, set_order = remdups, networkx = Generations\<rparr> ''package p; import p.B;'' = (None, [])"
  by (simp add: parse_def)

text \<open>
  \<^bold>\<open>C7, as the code has it.\<close> \<open>parse\<close> has no error to return. Its namespace is the
  sentinel \<open>None\<close> exactly when \<^verbatim>\<open>javalang\<close> is missing or its parser raises, and then
  the references are empty; when the parser returns a compilation unit, \<open>parse\<close> returns
  the name of its package, the empty string when it has none, with the paths of its
  imports. The caller, \<^verbatim>\<open>build_graph\<close>, replaces the sentinel by what the two patterns
  find, and keeps every other result of \<open>parse\<close> as it is.
\<close>

theorem sentinel_replaced_by_caller:
  "(fst (parse rt content) = None
      \<longleftrightarrow> (javalang rt = None \<or> (\<exists>f. javalang rt = Some f \<and> f content = None)))
   \<and> (fst (parse rt content) = None \<longrightarrow>
        parse rt content = (None, [])
        \<and> parse_or_fallback rt content
            = ((case findall ''package'' content of [] \<Rightarrow> '''' | m # _ \<Rightarrow> m),
               findall ''import'' content))
   \<and> (\<forall>pkg imps. parse rt content = (Some pkg, imps) \<longrightarrow>
        parse_or_fallback rt content = (pkg, imps))
   \<and> (\<forall>f tree. javalang rt = Some f \<and> f content = Some tree \<longrightarrow>
        parse rt content
          = (Some (case cu_package tree of Some name \<Rightarrow> name | None \<Rightarrow> ''''), cu_imports tree)
        \<and> parse_or_fallback rt content
            = ((case cu_package tree of Some name \<Rightarrow> name | None \<Rightarrow> ''''), cu_imports tree))"
  by (auto simp: parse_def parse_or_fallback_def Let_def split: option.splits)

theorem sentinel_replaced_by_caller_witness:
  "fst (parse \<lparr>javalang = None, set_order = remdups, networkx = Generations\<rparr>
          ''package p; import p.B;'') = None
   \<and> parse_or_fallback \<lparr>javalang = None, set_order = remdups, networkx = Generations\<rparr>
          ''package p; import p.B;'' = (''p'', [''p.B''])
   \<and> parse \<lparr>javalang = Some (\<lambda>c. Some \<lparr>cu_package = Some ''q'', cu_imports = [''q.C'', ''r.D'']\<rparr>),
              set_order = remdups, networkx = Generations\<rparr> ''package q; import q.C; import r.D;''
       = (Some ''q'', [''q.C'', ''r.D''])
   \<and> parse_or_fallback
        \<lparr>javalang = Some (\<lambda>c. Some \<lparr>cu_package = Some ''q'', cu_imports = [''q.C'', ''r.D'']\<rparr>),
         set_order = remdups, networkx = Generations\<rparr> ''package q; import q.C; import r.D;''
       = (''q'', [''q.C'', ''r.D''])
   \<and> parse \<lparr>javalang = Some (\<lambda>c. Some \<lparr>cu_package = None, cu_imports = [''q.C'']\<rparr>),
              set_order = remdups, networkx = Generations\<rparr> ''import q.C;''
       = (Some '''', [''q.C''])"
proof -
  have h: "fst (parse \<lparr>javalang = None, set_order = remdups, networkx = Generations\<rparr>
                  ''package p; import p.B;'') = None"
    by (simp add: parse_def)
  have f1: "findall ''package'' ''package p; import p.B;'' = [''p'']" by code_simp
  have f2: "findall ''import'' ''package p; import p.B;'' = [''p.B'']" by code_simp
  from sentinel_replaced_by_caller [of "\<lparr>javalang = None, set_order = remdups, networkx = Generations\<rparr>"
      "''package p; import p.B;''"] h
  have a: "parse_or_fallback \<lparr>javalang = None, set_order = remdups, networkx = Generations\<rparr>
             ''package p; import p.B;'' = (''p'', [''p.B''])"
    by (simp add: f1 f2)
  from sentinel_replaced_by_caller [of
      "\<lparr>javalang = Some (\<lambda>c. Some \<lparr>cu_package = Some ''q'', cu_imports = [''q.C'', ''r.D'']\<rparr>),
        set_order = remdups, networkx = Generations\<rparr>"
      "''package q; import q.C; import r.D;''"]
  have b: "parse \<lparr>javalang = Some (\<lambda>c. Some \<lparr>cu_package = Some ''q'', cu_imports = [''q.C'', ''r.D'']\<rparr>),
              set_order = remdups, networkx = Generations\<rparr> ''package q; import q.C; import r.D;''
             = (Some ''q'', [''q.C'', ''r.D''])
           \<and> parse_or_fallback
                \<lparr>javalang = Some (\<lambda>c. Some \<lparr>cu_package = Some ''q'', cu_imports = [''q.C'', ''r.D'']\<rparr>),
                 set_order = remdups, networkx = Generations\<rparr> ''package q; import q.C; import r.D;''
             = (''q'', [''q.C'', ''r.D''])"
    by simp
  from sentinel_replaced_by_caller [of
      "\<lparr>javalang = Some (\<lambda>c. Some \<lparr>cu_package = None, cu_imports = [''q.C'']\<rparr>),
        set_order = remdups, networkx = Generations\<rparr>"
      "''import q.C;''"]
  have c: "parse \<lparr>javalang = Some (\<lambda>c. Some \<lparr>cu_package = None, cu_imports = [''q.C'']\<rparr>),
              set_order = remdups, networkx = Generations\<rparr> ''import q.C;''
             = (Some '''', [''q.C''])"
    by simp
  from h a b c show ?thesis by blast
qed

section \<open>Determinism\<close>

lemma runtime_eqI:
  fixes rt1 rt2 :: runtime
  shows "javalang rt1 = javalang rt2 \<Longrightarrow> set_order rt1 = set_order rt2 \<Longrightarrow>
         networkx rt1 = networkx rt2 \<Longrightarrow> rt1 = rt2"
  by (cases rt1, cases rt2) simp

text \<open>
  \<^bold>\<open>C9.\<close> The claim that the returned sequence is a function of the input mapping alone
  fails: the references of a file are a set, and two runs that iterate the set
  \<^verbatim>\<open>{"B", "C"}\<close> in different orders return different sequences for the same mapping.
\<close>

theorem order_depends_on_set_iteration:
  "get_topological_sort Generations
      (build_graph \<lparr>javalang = None, set_order = remdups, networkx = Generations\<rparr>
      [(''A.java'', ''import B; import C;''), (''B.java'', ''''), (''C.java'', '''')])
     = Inr [''C.java'', ''B.java'', ''A.java'']
   \<and> get_topological_sort Generations (build_graph \<lparr>javalang = None, set_order = rev, networkx = Generations\<rparr>
      [(''A.java'', ''import B; import C;''), (''B.java'', ''''), (''C.java'', '''')])
     = Inr [''B.java'', ''C.java'', ''A.java'']"
  by code_simp

text \<open>
  \<^bold>\<open>C9, as the code has it.\<close> The returned sequence is a function of the input mapping,
  of what \<^verbatim>\<open>javalang\<close> does, of the order in which the reference sets iterate and
  of the release of \<^verbatim>\<open>networkx\<close>. Two runs that agree on \<^verbatim>\<open>javalang\<close> return the
  same paths, each once, and the same sequence when the graph has a cycle; two runs
  that also agree on the set order and the release return the same sequence.
\<close>

theorem order_determined_up_to_set_iteration:
  assumes "\<forall>xs. set (set_order rt1 xs) = set xs" and "\<forall>xs. set (set_order rt2 xs) = set xs"
    and "javalang rt1 = javalang rt2"
  shows "\<exists>out1 out2.
           get_topological_sort (networkx rt1) (build_graph rt1 code_files) = Inr out1
           \<and> get_topological_sort (networkx rt2) (build_graph rt2 code_files) = Inr out2
           \<and> distinct out1 \<and> distinct out2 \<and> mset out1 = mset out2
           \<and> (\<not> acyclic (set (edges (build_graph rt1 code_files))) \<longrightarrow> out1 = out2)
           \<and> (set_order rt1 = set_order rt2 \<and> networkx rt1 = networkx rt2
                  \<longrightarrow> out1 = out2)"
proof -
  let ?g1 = "build_graph rt1 code_files" and ?g2 = "build_graph rt2 code_files"
  have ip: "index_pass rt1 code_files = index_pass rt2 code_files"
    using assms(3) by (rule index_pass_runtime)
  have n: "nodes ?g1 = nodes ?g2"
    by (simp add: build_graph_nodes_eq ip)
  have e: "set (edges ?g1) = set (edges ?g2)"
    using assms(1,2) by (simp add: build_graph_edges ip)
  from get_topological_sort_covers [OF build_graph_wf, where nx = "networkx rt1" and rt1 = rt1 and cf1 = code_files] obtain out1 where
    o1: "get_topological_sort (networkx rt1) ?g1 = Inr out1" "distinct out1" "set out1 = set (nodes ?g1)"
    by blast
  from get_topological_sort_covers [OF build_graph_wf, where nx = "networkx rt2" and rt1 = rt2 and cf1 = code_files] obtain out2 where
    o2: "get_topological_sort (networkx rt2) ?g2 = Inr out2" "distinct out2" "set out2 = set (nodes ?g2)"
    by blast
  have m: "mset out1 = mset out2"
    using o1(2,3) o2(2,3) n by (simp add: set_eq_iff_mset_eq_distinct [symmetric])
  have c: "out1 = out2" if "\<not> acyclic (set (edges ?g1))"
  proof -
    from that e have "\<not> acyclic (set (edges ?g2))" by simp
    from get_topological_sort_cyclic [OF build_graph_wf that, where nx = "networkx rt1"]
      get_topological_sort_cyclic [OF build_graph_wf this, where nx = "networkx rt2"] o1(1) o2(1) n
    show ?thesis by simp
  qed
  have s: "out1 = out2" if "set_order rt1 = set_order rt2" "networkx rt1 = networkx rt2"
  proof -
    from assms(3) that have "rt1 = rt2" by (rule runtime_eqI)
    with o1(1) o2(1) show ?thesis by simp
  qed
  from o1(1,2) o2(1,2) m c s show ?thesis by blast
qed

theorem order_determined_up_to_set_iteration_witness:
  "(\<forall>xs. set (set_order \<lparr>javalang = None, set_order = remdups, networkx = Generations\<rparr> xs) = set xs)
   \<and> (\<forall>xs. set (set_order \<lparr>javalang = None, set_order = rev, networkx = Generations\<rparr> xs) = set xs)
   \<and> javalang \<lparr>javalang = None, set_order = remdups, networkx = Generations\<rparr> = javalang \<lparr>javalang = None, set_order = rev, networkx = Generations\<rparr>
   \<and> (\<exists>out1 out2.
         get_topological_sort Generations
      (build_graph \<lparr>javalang = None, set_order = remdups, networkx = Generations\<rparr>
           [(''A.java'', ''import B; import C;''), (''B.java'', ''''), (''C.java'', '''')]) = Inr out1
         \<and> get_topological_sort Generations (build_graph \<lparr>javalang = None, set_order = rev, networkx = Generations\<rparr>
           [(''A.java'', ''import B; import C;''), (''B.java'', ''''), (''C.java'', '''')]) = Inr out2
         \<and> mset out1 = mset out2)"
proof -
  have h1: "\<forall>xs. set (set_order \<lparr>javalang = None, set_order = remdups, networkx = Generations\<rparr> xs) = set xs" by simp
  have h2: "\<forall>xs. set (set_order \<lparr>javalang = None, set_order = rev, networkx = Generations\<rparr> xs) = set xs" by simp
  have h3: "javalang \<lparr>javalang = None, set_order = remdups, networkx = Generations\<rparr>
              = javalang \<lparr>javalang = None, set_order = rev, networkx = Generations\<rparr>" by simp
  from order_determined_up_to_set_iteration [OF h1 h2 h3,
      of "[(''A.java'', ''import B; import C;''), (''B.java'', ''''), (''C.java'', '''')]",
      unfolded runtime.select_convs]
    h1 h2 h3
  show ?thesis by blast
qed

section \<open>The fallback finds every occurrence\<close>

lemma name_char_not_space: "is_name_char c \<Longrightarrow> \<not> is_space c"
  by (auto simp: is_name_char_def is_word_def is_space_def Let_def)

lemma semicolon_classes: "\<not> is_name_char CHR '';''" "\<not> is_space CHR '';''"
  by (simp_all add: is_name_char_def is_word_def is_space_def)

lemma keyword_ok_package: "keyword_ok ''package''"
  by (simp add: keyword_ok_def is_space_def)

lemma keyword_ok_import: "keyword_ok ''import''"
  by (simp add: keyword_ok_def is_space_def)

lemma match_here_iff:
  "(match_here kw s = Some (nm, rest))
     = (\<exists>ws. s = kw @ ws @ nm @ CHR '';'' # rest
          \<and> ws \<noteq> [] \<and> (\<forall>c \<in> set ws. is_space c)
          \<and> nm \<noteq> [] \<and> (\<forall>c \<in> set nm. is_name_char c))"
proof
  assume a: "match_here kw s = Some (nm, rest)"
  define r1 where "r1 = drop (length kw) s"
  define ws where "ws = takeWhile is_space r1"
  define r2 where "r2 = dropWhile is_space r1"
  define r3 where "r3 = dropWhile is_name_char r2"
  from a have sw: "startswith s kw"
    by (auto simp: match_here_def split: if_splits)
  from a have w: "takeWhile is_space (drop (length kw) s) \<noteq> []"
    and n: "takeWhile is_name_char (dropWhile is_space (drop (length kw) s)) \<noteq> []"
    by (auto simp: match_here_def Let_def split: if_splits)
  from a have "dropWhile is_name_char (dropWhile is_space (drop (length kw) s)) = CHR '';'' # rest
               \<and> nm = takeWhile is_name_char (dropWhile is_space (drop (length kw) s))"
    by (auto simp: match_here_def Let_def split: if_splits list.splits)
  then have r3: "r3 = CHR '';'' # rest" and nm: "nm = takeWhile is_name_char r2"
    by (simp_all add: r1_def r2_def r3_def)
  from w have w: "ws \<noteq> []" by (simp add: ws_def r1_def)
  from n have n: "nm \<noteq> []" by (simp add: nm r2_def r1_def)
  have "s = take (length kw) s @ r1" by (simp add: r1_def)
  with sw have s: "s = kw @ r1" by (simp add: startswith_def)
  have "r1 = ws @ r2" by (simp add: ws_def r2_def)
  moreover have "r2 = nm @ r3" by (simp add: nm r3_def)
  ultimately have "s = kw @ ws @ nm @ CHR '';'' # rest"
    using s r3 by simp
  moreover have "\<forall>c \<in> set ws. is_space c"
    unfolding ws_def by (auto dest: set_takeWhileD)
  moreover have "\<forall>c \<in> set nm. is_name_char c"
    unfolding nm by (auto dest: set_takeWhileD)
  ultimately show "\<exists>ws. s = kw @ ws @ nm @ CHR '';'' # rest
          \<and> ws \<noteq> [] \<and> (\<forall>c \<in> set ws. is_space c)
          \<and> nm \<noteq> [] \<and> (\<forall>c \<in> set nm. is_name_char c)"
    using w n nm by blast
next
  assume "\<exists>ws. s = kw @ ws @ nm @ CHR '';'' # rest
          \<and> ws \<noteq> [] \<and> (\<forall>c \<in> set ws. is_space c)
          \<and> nm \<noteq> [] \<and> (\<forall>c \<in> set nm. is_name_char c)"
  then obtain ws where s: "s = kw @ ws @ nm @ CHR '';'' # rest"
    and w: "ws \<noteq> []" "\<forall>c \<in> set ws. is_space c"
    and n: "nm \<noteq> []" "\<forall>c \<in> set nm. is_name_char c"
    by blast
  from n obtain c nm' where nm: "nm = c # nm'" and c: "\<not> is_space c"
    by (cases nm) (auto dest: name_char_not_space)
  have sw: "startswith s kw" by (simp add: startswith_def s)
  have r1: "drop (length kw) s = ws @ nm @ CHR '';'' # rest" by (simp add: s)
  have tw: "takeWhile is_space (ws @ nm @ CHR '';'' # rest) = ws"
    using w(2) c by (simp add: takeWhile_append2 nm)
  have dw: "dropWhile is_space (ws @ nm @ CHR '';'' # rest) = nm @ CHR '';'' # rest"
    using w(2) c by (simp add: dropWhile_append2 nm)
  have tn: "takeWhile is_name_char (nm @ CHR '';'' # rest) = nm"
    using n(2) by (simp add: takeWhile_append2 semicolon_classes)
  have dn: "dropWhile is_name_char (nm @ CHR '';'' # rest) = CHR '';'' # rest"
    using n(2) by (simp add: dropWhile_append2 semicolon_classes)
  show "match_here kw s = Some (nm, rest)"
    unfolding match_here_def Let_def r1 tw dw tn dn using sw w(1) n(1) by simp
qed

lemma occurrence_here:
  "occurrence kw [] nm s = (\<exists>rest. match_here kw s = Some (nm, rest))"
  unfolding occurrence_def match_here_iff by auto

lemma occurrence_Nil: "\<not> occurrence kw pre nm []"
  by (simp add: occurrence_def)

lemma occurrence_Cons:
  "occurrence kw (c # pre) nm (d # s) = (c = d \<and> occurrence kw pre nm s)"
  by (auto simp: occurrence_def)

lemma occurrence_append:
  "occurrence kw pre nm s \<Longrightarrow> occurrence kw (xs @ pre) nm (xs @ s)"
  by (auto simp: occurrence_def)

lemma no_overlap:
  assumes ok: "keyword_ok kw"
    and s1: "s = kw @ ws @ nm @ CHR '';'' # rest"
    and w1: "\<forall>c \<in> set ws. is_space c" and n1: "\<forall>c \<in> set nm. is_name_char c"
    and s2: "s = pre @ kw @ ws' @ post'" and w2: "ws' \<noteq> []" "\<forall>c \<in> set ws'. is_space c"
    and p: "pre \<noteq> []"
  shows "length kw + length ws + length nm + 1 \<le> length pre"
proof (rule ccontr)
  assume "\<not> length kw + length ws + length nm + 1 \<le> length pre"
  then have k: "length pre \<le> length kw + length ws + length nm" by simp
  define k where "k = length pre"
  define e where "e = length kw + length ws + length nm"
  from ok have kw: "kw \<noteq> []" and hd_tl: "hd kw \<notin> set (tl kw)" and hd_sp: "\<not> is_space (hd kw)"
    and hd_sc: "hd kw \<noteq> CHR '';''" and no_sc: "CHR '';'' \<notin> set kw"
    by (simp_all add: keyword_ok_def)
  have kpos: "0 < k" using p by (simp add: k_def)
  have kle: "k \<le> e" using k by (simp add: k_def e_def)
  \<comment> \<open>the second reading of the text\<close>
  have at_kw: "s ! (k + j) = kw ! j" if "j < length kw" for j
    using that unfolding s2 k_def by (simp add: nth_append)
  have at_sp: "is_space (s ! (k + length kw))"
  proof -
    from w2(1) obtain c cs where c: "ws' = c # cs" by (cases ws') auto
    have "s ! (k + length kw) = c"
      unfolding s2 k_def c by (simp add: nth_append)
    with w2(2) c show ?thesis by simp
  qed
  \<comment> \<open>the first reading of the text\<close>
  have in_kw: "s ! i = kw ! i" if "i < length kw" for i
    using that unfolding s1 by (simp add: nth_append)
  have in_ws: "is_space (s ! i)" if "length kw \<le> i" "i < length kw + length ws" for i
  proof -
    define j where "j = i - length kw"
    from that have i: "i = length kw + j" and j: "j < length ws" by (simp_all add: j_def)
    have "s ! i = ws ! j"
      unfolding s1 i using j by (simp add: nth_append)
    moreover from j have "ws ! j \<in> set ws" by (rule nth_mem)
    ultimately show ?thesis using w1 by simp
  qed
  have in_nm: "is_name_char (s ! i)" if "length kw + length ws \<le> i" "i < e" for i
  proof -
    define j where "j = i - (length kw + length ws)"
    from that have i: "i = length kw + (length ws + j)" and j: "j < length nm"
      by (simp_all add: j_def e_def)
    have "s ! i = nm ! j"
      unfolding s1 i using j by (simp add: nth_append)
    moreover from j have "nm ! j \<in> set nm" by (rule nth_mem)
    ultimately show ?thesis using n1 by simp
  qed
  have at_e: "s ! e = CHR '';''"
    unfolding s1 e_def by (simp add: nth_append)
  have hd0: "s ! k = hd kw"
    using at_kw [of 0] kw by (simp add: hd_conv_nth)
  consider (a) "k < length kw" | (b) "length kw \<le> k" "k < length kw + length ws"
    | (c) "length kw + length ws \<le> k" "k < e" | (d) "k = e"
    using kle by arith
  then show False
  proof cases
    case a
    with in_kw [of k] hd0 have "kw ! k = hd kw" by simp
    moreover from a kpos have "kw ! k = tl kw ! (k - 1)"
      using kw by (cases kw) (auto simp: nth_Cons')
    moreover from a kpos have "tl kw ! (k - 1) \<in> set (tl kw)"
      by (intro nth_mem) simp
    ultimately show False using hd_tl by simp
  next
    case b
    from in_ws [OF b] hd0 hd_sp show False by simp
  next
    case c
    let ?q = "k + length kw"
    consider (lt) "?q < e" | (eq) "?q = e" | (gt) "e < ?q" by arith
    then show False
    proof cases
      case lt
      with c have "is_name_char (s ! ?q)" by (intro in_nm) arith+
      with at_sp show False by (auto dest: name_char_not_space)
    next
      case eq
      with at_sp at_e show False by (simp add: semicolon_classes)
    next
      case gt
      with c have j: "e - k < length kw" by arith
      from at_kw [OF j] c have "kw ! (e - k) = CHR '';''" using at_e by simp
      moreover from j have "kw ! (e - k) \<in> set kw" by (rule nth_mem)
      ultimately show False using no_sc by simp
    qed
  next
    case d
    with hd0 at_e hd_sc show False by simp
  qed
qed

lemma occurrence_after_match:
  assumes ok: "keyword_ok kw" and m: "match_here kw s = Some (nm, rest)"
  shows "(\<exists>pre. occurrence kw pre x s) = (x = nm \<or> (\<exists>pre. occurrence kw pre x rest))"
proof -
  from m obtain ws where s1: "s = kw @ ws @ nm @ CHR '';'' # rest"
    and w1: "\<forall>c \<in> set ws. is_space c" and n1: "\<forall>c \<in> set nm. is_name_char c"
    unfolding match_here_iff by blast
  define X where "X = kw @ ws @ nm @ [CHR '';'']"
  have sX: "s = X @ rest" by (simp add: s1 X_def)
  show ?thesis
  proof
    assume "\<exists>pre. occurrence kw pre x s"
    then obtain pre where o: "occurrence kw pre x s" by blast
    show "x = nm \<or> (\<exists>pre. occurrence kw pre x rest)"
    proof (cases "pre = []")
      case True
      with o m show ?thesis by (auto simp: occurrence_here)
    next
      case False
      from o obtain ws' post where s2: "s = pre @ kw @ ws' @ x @ CHR '';'' # post"
        and w2: "ws' \<noteq> []" "\<forall>c \<in> set ws'. is_space c"
        and n2: "x \<noteq> []" "\<forall>c \<in> set x. is_name_char c"
        unfolding occurrence_def by blast
      from no_overlap [OF ok s1 w1 n1 s2 w2 False]
      have len: "length X \<le> length pre" by (simp add: X_def)
      define pre' where "pre' = drop (length X) pre"
      have "take (length X) s = X" by (simp add: sX)
      moreover have "take (length X) s = take (length X) pre"
        using len by (simp add: s2)
      ultimately have "pre = X @ pre'"
        unfolding pre'_def by (metis append_take_drop_id)
      with s2 sX have "rest = pre' @ kw @ ws' @ x @ CHR '';'' # post" by simp
      with w2 n2 have "occurrence kw pre' x rest" unfolding occurrence_def by blast
      then show ?thesis by blast
    qed
  next
    assume "x = nm \<or> (\<exists>pre. occurrence kw pre x rest)"
    then show "\<exists>pre. occurrence kw pre x s"
    proof
      assume "x = nm"
      with m have "occurrence kw [] x s" by (auto simp: occurrence_here)
      then show ?thesis by blast
    next
      assume "\<exists>pre. occurrence kw pre x rest"
      then obtain pre where "occurrence kw pre x rest" by blast
      then have "occurrence kw (X @ pre) x s" unfolding sX by (rule occurrence_append)
      then show ?thesis by blast
    qed
  qed
qed

lemma occurrence_after_miss:
  assumes "match_here kw (c # cs) = None"
  shows "occurrence kw pre x (c # cs) = (\<exists>pre'. pre = c # pre' \<and> occurrence kw pre' x cs)"
proof (cases pre)
  case Nil
  with assms show ?thesis by (simp add: occurrence_here)
next
  case (Cons d pre')
  then show ?thesis by (auto simp: occurrence_Cons)
qed

lemma findall_set:
  "keyword_ok kw \<Longrightarrow> set (findall kw s) = {nm. \<exists>pre. occurrence kw pre nm s}"
proof (induction kw s rule: findall.induct)
  case (1 kw s)
  show ?case
  proof (cases "match_here kw s")
    case (Some r)
    obtain nm rest where r: "r = (nm, rest)" by (cases r)
    from "1.IH"(2) [OF Some r [symmetric] "1.prems"]
    have IH: "set (findall kw rest) = {nm. \<exists>pre. occurrence kw pre nm rest}" .
    have f: "findall kw s = nm # findall kw rest"
      by (subst findall.simps) (simp add: Some r)
    show ?thesis
      unfolding f using occurrence_after_match [OF "1.prems" Some [unfolded r]] IH by auto
  next
    case None
    show ?thesis
    proof (cases s)
      case Nil
      then have "findall kw s = []"
        using None by (subst findall.simps) simp
      with Nil show ?thesis by (simp add: occurrence_Nil)
    next
      case (Cons c cs)
      from "1.IH"(1) [OF None Cons "1.prems"]
      have IH: "set (findall kw cs) = {nm. \<exists>pre. occurrence kw pre nm cs}" .
      have f: "findall kw s = findall kw cs"
        using None Cons by (subst findall.simps) simp
      have "(\<exists>pre. occurrence kw pre x s) = (\<exists>pre. occurrence kw pre x cs)" for x
        using occurrence_after_miss [OF None [unfolded Cons]] unfolding Cons by blast
      with IH show ?thesis unfolding f by simp
    qed
  qed
qed

lemma findall_first:
  "findall kw s = m # ms \<Longrightarrow>
   \<exists>pre. occurrence kw pre m s
         \<and> (\<forall>pre' nm'. occurrence kw pre' nm' s \<longrightarrow> length pre \<le> length pre')"
proof (induction kw s rule: findall.induct)
  case (1 kw s)
  show ?case
  proof (cases "match_here kw s")
    case (Some r)
    obtain nm rest where r: "r = (nm, rest)" by (cases r)
    have "findall kw s = nm # findall kw rest"
      by (subst findall.simps) (simp add: Some r)
    with "1.prems" have "m = nm" by simp
    with Some r have "occurrence kw [] m s" by (auto simp: occurrence_here)
    then show ?thesis by (intro exI [of _ "[]"]) simp
  next
    case None
    show ?thesis
    proof (cases s)
      case Nil
      then have "findall kw s = []"
        using None by (subst findall.simps) simp
      with "1.prems" show ?thesis by simp
    next
      case (Cons c cs)
      have "findall kw s = findall kw cs"
        using None Cons by (subst findall.simps) simp
      with "1.prems" have "findall kw cs = m # ms" by simp
      from "1.IH"(1) [OF None Cons this] obtain pre where
        o: "occurrence kw pre m cs"
        and least: "\<And>pre' nm'. occurrence kw pre' nm' cs \<Longrightarrow> length pre \<le> length pre'"
        by blast
      note miss = occurrence_after_miss [OF None [unfolded Cons]]
      from o have "occurrence kw (c # pre) m s" unfolding Cons by (simp add: occurrence_Cons)
      moreover have "length (c # pre) \<le> length pre'" if "occurrence kw pre' nm' s" for pre' nm'
      proof -
        from that miss [of pre' nm'] obtain p where "pre' = c # p" "occurrence kw p nm' cs"
          unfolding Cons by blast
        with least [of p nm'] show ?thesis by simp
      qed
      ultimately show ?thesis by blast
    qed
  qed
qed

text \<open>
  \<^bold>\<open>C8.\<close> When \<open>parse\<close> returns the sentinel, the namespace that \<^verbatim>\<open>build_graph\<close> goes
  on with is the name of the first occurrence of \<^verbatim>\<open>package <dotted-name>;\<close> in the
  text, or the empty string when there is none, and the references are the names of all
  occurrences of \<^verbatim>\<open>import <dotted-name>;\<close>, none when there is none. \<open>findall\<close> is a
  total function, so the fallback returns for every text.
\<close>

theorem fallback_finds_package_and_imports:
  assumes "fst (parse rt content) = None"
  shows "\<exists>pkg imports. parse_or_fallback rt content = (pkg, imports)
           \<and> set imports = {nm. \<exists>pre. occurrence ''import'' pre nm content}
           \<and> (if \<exists>pre nm. occurrence ''package'' pre nm content
               then \<exists>pre. occurrence ''package'' pre pkg content
                      \<and> (\<forall>pre' nm'. occurrence ''package'' pre' nm' content
                            \<longrightarrow> length pre \<le> length pre')
               else pkg = '''')"
proof -
  define pkg where "pkg = (case findall ''package'' content of [] \<Rightarrow> '''' | m # _ \<Rightarrow> m)"
  from assms have r: "parse_or_fallback rt content = (pkg, findall ''import'' content)"
    by (cases "parse rt content") (simp add: parse_or_fallback_def pkg_def)
  have i: "set (findall ''import'' content) = {nm. \<exists>pre. occurrence ''import'' pre nm content}"
    by (rule findall_set [OF keyword_ok_import])
  have p: "if \<exists>pre nm. occurrence ''package'' pre nm content
           then \<exists>pre. occurrence ''package'' pre pkg content
                  \<and> (\<forall>pre' nm'. occurrence ''package'' pre' nm' content
                        \<longrightarrow> length pre \<le> length pre')
           else pkg = ''''"
  proof (cases "findall ''package'' content")
    case Nil
    then have "{nm. \<exists>pre. occurrence ''package'' pre nm content} = {}"
      using findall_set [OF keyword_ok_package, of content] by simp
    then have "\<not> (\<exists>pre nm. occurrence ''package'' pre nm content)" by blast
    with Nil show ?thesis by (simp add: pkg_def)
  next
    case (Cons m ms)
    then have "pkg = m" by (simp add: pkg_def)
    with findall_first [OF Cons] show ?thesis by auto
  qed
  from r i p show ?thesis by blast
qed

theorem fallback_finds_package_and_imports_witness:
  "fst (parse \<lparr>javalang = None, set_order = remdups, networkx = Generations\<rparr>
          ''package p; import p.B; import java.util.*; import q.C;'') = None
   \<and> parse_or_fallback \<lparr>javalang = None, set_order = remdups, networkx = Generations\<rparr>
          ''package p; import p.B; import java.util.*; import q.C;'' = (''p'', [''p.B'', ''q.C''])
   \<and> {nm. \<exists>pre. occurrence ''import'' pre nm
          ''package p; import p.B; import java.util.*; import q.C;''} = {''p.B'', ''q.C''}"
proof -
  have h: "fst (parse \<lparr>javalang = None, set_order = remdups, networkx = Generations\<rparr>
          ''package p; import p.B; import java.util.*; import q.C;'') = None"
    by (simp add: parse_def)
  have e: "parse_or_fallback \<lparr>javalang = None, set_order = remdups, networkx = Generations\<rparr>
          ''package p; import p.B; import java.util.*; import q.C;'' = (''p'', [''p.B'', ''q.C''])"
    by code_simp
  from fallback_finds_package_and_imports [OF h] h e show ?thesis by auto
qed

end
